theory Spec2Isabelle
  imports Main "HOL-Library.Word"
begin

section \<open>dna-backup: the chunking, matching and encoding engine\<close>

text \<open>
  A shallow embedding of \<^verbatim>\<open>repo.go\<close> and \<^verbatim>\<open>sketch/sketch.go\<close>.
  Go's \<^verbatim>\<open>int\<close> sizes and counts are natural numbers (the parameters of a repository
  are non-negative and no size here comes near 2^63); \<^verbatim>\<open>uint64\<close> hash values are
  64-bit words; a panic, whether raised by \<^verbatim>\<open>logger.Panic\<close> or by the runtime, is
  a value of type \<open>fault\<close>.
\<close>

type_synonym byte = "8 word"
type_synonym bytes = "byte list"
type_synonym u64 = "64 word"

datatype fault =
    DivideByZero          \<comment> \<open>runtime panic: integer divide by zero\<close>
  | PanicShortRead        \<comment> \<open>\<^verbatim>\<open>logger.Panicf("matching stream, read only ...")\<close>\<close>
  | PanicChunkRead        \<comment> \<open>\<^verbatim>\<open>LoadChunkContent\<close>: the chunk file cannot be read\<close>
  | PanicHashesFile       \<comment> \<open>\<^verbatim>\<open>loadHashes\<close> / \<^verbatim>\<open>storageWorker\<close>: hashes file cannot be opened\<close>
  | PanicNoVersion        \<comment> \<open>\<^verbatim>\<open>Restore\<close>: \<^verbatim>\<open>versions[len(versions)-1]\<close> on no version\<close>
  | PanicBasicStruct      \<comment> \<open>\<^verbatim>\<open>loadBasicStruct\<close> / \<^verbatim>\<open>loadRecipe\<close>: file cannot be opened\<close>

definition bind :: "fault + 'a \<Rightarrow> ('a \<Rightarrow> fault + 'b) \<Rightarrow> fault + 'b" where
  "bind m f = (case m of Inl e \<Rightarrow> Inl e | Inr x \<Rightarrow> f x)"

subsection \<open>The rolling hash (external library \<^verbatim>\<open>rabinkarp64\<close>)\<close>

text \<open>
  Modelled from the spec: the rolling hash is an external collaborator (section 4.1):
  \<^verbatim>\<open>Write\<close> absorbs bytes into the window, \<^verbatim>\<open>Roll\<close> slides the window one byte
  forward, evicting the oldest, and the sum after rolling equals the sum of
  \<^verbatim>\<open>Reset; Write(window)\<close> for the new window. So a hasher is its window, and
  \<^verbatim>\<open>Sum64\<close> is a function \<open>pol\<close> of the window, fixed by the polynomial of the
  repository. Rolling an empty window leaves it empty.
\<close>

type_synonym hasher = bytes

definition NewFromPol :: hasher where
  "NewFromPol = []"

definition Write :: "hasher \<Rightarrow> bytes \<Rightarrow> hasher" where
  "Write w data = w @ data"

definition Roll :: "hasher \<Rightarrow> byte \<Rightarrow> hasher" where
  "Roll w b = (if w = [] then [] else tl w @ [b])"

definition Reset :: "hasher \<Rightarrow> hasher" where
  "Reset w = []"

definition Sum64 :: "(bytes \<Rightarrow> u64) \<Rightarrow> hasher \<Rightarrow> u64" where
  "Sum64 pol w = pol w"

subsection \<open>\<^verbatim>\<open>sketch/sketch.go\<close>\<close>

definition FeatureSize :: "nat \<Rightarrow> nat \<Rightarrow> nat \<Rightarrow> fault + nat" where
  "FeatureSize chunkSize sfCount fCount =
     (if sfCount * fCount = 0 then Inl DivideByZero
      else Inr (chunkSize div (sfCount * fCount)))"

definition SuperFeatureSize :: "nat \<Rightarrow> nat \<Rightarrow> nat \<Rightarrow> fault + nat" where
  "SuperFeatureSize chunkSize sfCount fCount =
     bind (FeatureSize chunkSize sfCount fCount) (\<lambda>fSize. Inr (fSize * sfCount))"

text \<open>
  The loop of \<^verbatim>\<open>calcFeature\<close>: \<open>n\<close> iterations are left, \<open>r\<close> is the unread part
  of the feature buffer. \<^verbatim>\<open>ReadByte\<close> at the end of the buffer returns 0 and an
  error, which the source ignores.
\<close>

fun calcFeatureLoop :: "(bytes \<Rightarrow> u64) \<Rightarrow> nat \<Rightarrow> hasher \<Rightarrow> bytes \<Rightarrow> u64 \<Rightarrow> u64" where
  "calcFeatureLoop pol 0 h r mx = mx"
| "calcFeatureLoop pol (Suc n) h r mx =
     (let b = (case r of [] \<Rightarrow> 0 | x # _ \<Rightarrow> x);
          h' = Roll h b;
          s = Sum64 pol h'
      in calcFeatureLoop pol n h' (tl r) (if s > mx then s else mx))"

definition calcFeature :: "(bytes \<Rightarrow> u64) \<Rightarrow> bytes \<Rightarrow> nat \<Rightarrow> nat \<Rightarrow> u64" where
  "calcFeature pol r wSize fSize =
     (let h = Write NewFromPol (take wSize r);
          mx = Sum64 pol h
      in calcFeatureLoop pol (fSize - wSize) h (drop wSize r) mx)"

text \<open>
  The first loop of \<^verbatim>\<open>SketchChunk\<close>: \<open>n\<close> iterations are left, \<open>chunk\<close> is the
  unread part of the chunk buffer. \<^verbatim>\<open>io.CopyN\<close> fails when fewer than \<open>fSize\<close>
  bytes are left; the iteration is then skipped, with the buffer drained.
\<close>

fun featuresLoop :: "(bytes \<Rightarrow> u64) \<Rightarrow> nat \<Rightarrow> nat \<Rightarrow> nat \<Rightarrow> bytes \<Rightarrow> u64 list" where
  "featuresLoop pol wSize fSize 0 chunk = []"
| "featuresLoop pol wSize fSize (Suc n) chunk =
     (if length chunk < fSize then featuresLoop pol wSize fSize n []
      else calcFeature pol (take fSize chunk) wSize fSize
             # featuresLoop pol wSize fSize n (drop fSize chunk))"

text \<open>\<^verbatim>\<open>binary.LittleEndian.PutUint64\<close>\<close>

definition PutUint64 :: "u64 \<Rightarrow> bytes" where
  "PutUint64 v = map (\<lambda>i. ucast (drop_bit (8 * i) v)) [0..<8]"

text \<open>
  The second loop of \<^verbatim>\<open>SketchChunk\<close>, from super-feature number \<open>sf\<close> on, with
  \<open>n\<close> iterations left: the buffer \<^verbatim>\<open>sfBuff\<close> is overwritten in full at each
  iteration by the \<open>fCount\<close> features of the group.
\<close>

fun superfeaturesLoop :: "(bytes \<Rightarrow> u64) \<Rightarrow> nat \<Rightarrow> u64 list \<Rightarrow> nat \<Rightarrow> nat \<Rightarrow> u64 list" where
  "superfeaturesLoop pol fCount features sf 0 = []"
| "superfeaturesLoop pol fCount features sf (Suc n) =
     (let sfBuff = concat (map (\<lambda>i. PutUint64 (features ! (i + sf * fCount))) [0..<fCount])
      in Sum64 pol (Write (Reset NewFromPol) sfBuff)
           # superfeaturesLoop pol fCount features (Suc sf) n)"

definition SketchChunk :: "bytes \<Rightarrow> (bytes \<Rightarrow> u64) \<Rightarrow> nat \<Rightarrow> nat \<Rightarrow> nat \<Rightarrow> nat \<Rightarrow> fault + u64 list" where
  "SketchChunk r pol chunkSize wSize sfCount fCount =
     bind (FeatureSize chunkSize sfCount fCount) (\<lambda>fSize.
       if fSize = 0 then Inl DivideByZero
       else
         let features = featuresLoop pol wSize fSize (length r div fSize) r
         in if fCount = 0 then Inl DivideByZero
            else Inr (superfeaturesLoop pol fCount features 0 (length features div fCount)))"

subsection \<open>Data model of \<^verbatim>\<open>repo.go\<close>\<close>

text \<open>
  A \<^verbatim>\<open>*ChunkId\<close> is modelled by its value. The source compares pointers in
  \<^verbatim>\<open>contains\<close>; every identifier value is allocated once (by \<^verbatim>\<open>loadHashes\<close>
  for record \<open>j\<close> of version \<open>i\<close>, by \<^verbatim>\<open>encodeTempChunk\<close> for
  \<^verbatim>\<open>(version, *last)\<close>, by \<^verbatim>\<open>loadChunks\<close> for entry \<open>j\<close> of version
  \<open>i\<close>), so the two equalities agree.
\<close>

record ChunkId =
  Ver :: nat
  Idx :: nat

text \<open>
  Modelled from the spec: the chunk types of \<^verbatim>\<open>chunk.go\<close> (section 3). A chunk is
  Stored (a reference to a persisted payload), Temp (an in-memory payload) or Delta
  (source, patch, size).
\<close>

datatype Chunk =
    StoredChunk ChunkId
  | TempChunk bytes
  | DeltaChunk ChunkId bytes nat

record chunkHashes =
  Fp :: u64
  Sk :: "u64 list"

record chunkData =
  hashes :: chunkHashes
  content :: bytes
  ident :: ChunkId

record File =
  Path :: string
  Size :: nat

text \<open>
  The struct \<^verbatim>\<open>Repo\<close>. The field \<open>pol\<close> stands for the hash that the polynomial
  fixes; \<open>differ\<close> returns \<open>None\<close> where \<^verbatim>\<open>Diff\<close> returns an error. The chunk
  cache is modelled without eviction: an evicted chunk is read again from its file,
  with the same bytes. The read and write wrappers are inverse to each other, so a
  chunk file is modelled by the bytes it decodes to.
\<close>

record Repo =
  chunkSize :: nat
  sketchWSize :: nat
  sketchSfCount :: nat
  sketchFCount :: nat
  pol :: "bytes \<Rightarrow> u64"
  differ :: "bytes \<Rightarrow> bytes \<Rightarrow> bytes option"
  patcher :: "bytes \<Rightarrow> bytes \<Rightarrow> bytes"
  fingerprints :: "u64 \<rightharpoonup> ChunkId"
  sketches :: "u64 \<rightharpoonup> ChunkId list"
  chunkCache :: "ChunkId \<rightharpoonup> bytes"

text \<open>
  The repository on disk: one directory per version, in the order of their names;
  \<open>chunkFiles\<close> lists the files of \<^verbatim>\<open>chunks/\<close> by the number in their name, in
  the order of their creation.
\<close>

record version_dir =
  chunkFiles :: "(nat \<times> bytes) list"
  hashesFile :: "chunkHashes list option"
  filesFile :: "File list option"
  recipeFile :: "Chunk list option"

type_synonym repo_dir = "version_dir list"

definition readChunkFile :: "repo_dir \<Rightarrow> ChunkId \<Rightarrow> bytes option" where
  "readChunkFile fs i =
     (if Ver i < length fs then map_of (chunkFiles (fs ! Ver i)) (Idx i) else None)"

subsection \<open>The indices\<close>

fun contains :: "ChunkId list \<Rightarrow> ChunkId \<Rightarrow> bool" where
  "contains [] i = False"
| "contains (v # s) i = (if v = i then True else contains s i)"

text \<open>\<^verbatim>\<open>SketchMap.Set\<close>; the list under a missing key is nil.\<close>

fun Set :: "(u64 \<rightharpoonup> ChunkId list) \<Rightarrow> u64 list \<Rightarrow> ChunkId \<Rightarrow> (u64 \<rightharpoonup> ChunkId list)" where
  "Set m [] v = m"
| "Set m (s # key) v =
     (let prev = (case m s of None \<Rightarrow> [] | Some l \<Rightarrow> l)
      in if contains prev v then Set m key v
         else Set (m(s \<mapsto> prev @ [v])) key v)"

text \<open>\<^verbatim>\<open>makeFingerprint\<close>: a fresh hasher is fed the whole content.\<close>

definition makeFingerprint :: "Repo \<Rightarrow> bytes \<Rightarrow> u64" where
  "makeFingerprint r reader = Sum64 (pol r) (Write NewFromPol reader)"

definition makeSketch :: "Repo \<Rightarrow> bytes \<Rightarrow> fault + u64 list" where
  "makeSketch r reader =
     SketchChunk reader (pol r) (chunkSize r) (sketchWSize r) (sketchSfCount r) (sketchFCount r)"

definition hashChunk :: "Repo \<Rightarrow> ChunkId \<Rightarrow> bytes \<Rightarrow> fault + (u64 \<times> u64 list \<times> Repo)" where
  "hashChunk r i reader =
     (let fp = makeFingerprint r reader
      in bind (makeSketch r reader) (\<lambda>sk.
           Inr (fp, sk, r\<lparr>fingerprints := (fingerprints r)(fp \<mapsto> i),
                            sketches := Set (sketches r) sk i\<rparr>)))"

text \<open>
  \<^verbatim>\<open>loadHashes\<close>: the inner loop over the records of one hashes file, \<open>j\<close> being
  the number of the next record, and the outer loop over the versions, \<open>i\<close> being
  the number of the next version. A hashes file that cannot be opened is a panic.
\<close>

fun loadHashesRecords :: "Repo \<Rightarrow> nat \<Rightarrow> nat \<Rightarrow> chunkHashes list \<Rightarrow> Repo" where
  "loadHashesRecords r i j [] = r"
| "loadHashesRecords r i j (h # hs) =
     (let ci = \<lparr>Ver = i, Idx = j\<rparr>
      in loadHashesRecords
           (r\<lparr>fingerprints := (fingerprints r)(Fp h \<mapsto> ci),
              sketches := Set (sketches r) (Sk h) ci\<rparr>) i (Suc j) hs)"

fun loadHashesFrom :: "Repo \<Rightarrow> nat \<Rightarrow> repo_dir \<Rightarrow> fault + Repo" where
  "loadHashesFrom r i [] = Inr r"
| "loadHashesFrom r i (v # versions) =
     (case hashesFile v of
        None \<Rightarrow> Inl PanicHashesFile
      | Some hs \<Rightarrow> loadHashesFrom (loadHashesRecords r i 0 hs) (Suc i) versions)"

definition loadHashes :: "Repo \<Rightarrow> repo_dir \<Rightarrow> fault + Repo" where
  "loadHashes r versions = loadHashesFrom r 0 versions"

text \<open>
  \<^verbatim>\<open>LoadChunkContent\<close>: from the cache, else from the chunk file, which is then
  cached. A chunk file that cannot be opened ends in \<^verbatim>\<open>logger.Panicf\<close>.
\<close>

definition LoadChunkContent :: "repo_dir \<Rightarrow> Repo \<Rightarrow> ChunkId \<Rightarrow> fault + (bytes \<times> Repo)" where
  "LoadChunkContent fs r i =
     (case chunkCache r i of
        Some v \<Rightarrow> Inr (v, r)
      | None \<Rightarrow>
          (case readChunkFile fs i of
             None \<Rightarrow> Inl PanicChunkRead
           | Some v \<Rightarrow> Inr (v, r\<lparr>chunkCache := (chunkCache r)(i \<mapsto> v)\<rparr>)))"

text \<open>
  \<^verbatim>\<open>loadChunks\<close> and \<^verbatim>\<open>hashChunks\<close>: entry \<open>j\<close> of the chunk directory of
  version \<open>i\<close> becomes the stored chunk \<open>(i, j)\<close>, whose reader loads the file that
  the identifier names.
\<close>

definition loadChunks :: "repo_dir \<Rightarrow> ChunkId list" where
  "loadChunks versions =
     concat (map (\<lambda>i. map (\<lambda>j. \<lparr>Ver = i, Idx = j\<rparr>) [0..<length (chunkFiles (versions ! i))])
                 [0..<length versions])"

fun hashChunks :: "repo_dir \<Rightarrow> Repo \<Rightarrow> ChunkId list \<Rightarrow> fault + Repo" where
  "hashChunks fs r [] = Inr r"
| "hashChunks fs r (c # cs) =
     bind (LoadChunkContent fs r c) (\<lambda>(reader, r1).
       bind (hashChunk r1 c reader) (\<lambda>(fp, sk, r2). hashChunks fs r2 cs))"

subsection \<open>Similarity search and delta encoding\<close>

text \<open>
  The two loops of \<^verbatim>\<open>findSimilarChunk\<close>, on the pair of the vote counts
  \<^verbatim>\<open>similarChunks\<close> (a missing key counts 0) and the result \<^verbatim>\<open>similarChunk\<close>.
  The variable \<^verbatim>\<open>max\<close> is declared and compared with, and never assigned.
\<close>

fun countVotes :: "nat \<Rightarrow> ChunkId list \<Rightarrow> (ChunkId \<Rightarrow> nat) \<times> ChunkId option
    \<Rightarrow> (ChunkId \<Rightarrow> nat) \<times> ChunkId option" where
  "countVotes mx [] acc = acc"
| "countVotes mx (i # chunkIds) (similarChunks, similarChunk) =
     (let count = similarChunks i + 1
      in countVotes mx chunkIds
           (similarChunks(i := count), if count > mx then Some i else similarChunk))"

fun voteLoop :: "(u64 \<rightharpoonup> ChunkId list) \<Rightarrow> nat \<Rightarrow> u64 list
    \<Rightarrow> (ChunkId \<Rightarrow> nat) \<times> ChunkId option \<Rightarrow> (ChunkId \<Rightarrow> nat) \<times> ChunkId option" where
  "voteLoop sks mx [] acc = acc"
| "voteLoop sks mx (s # sketch) acc =
     (case sks s of
        None \<Rightarrow> voteLoop sks mx sketch acc
      | Some chunkIds \<Rightarrow> voteLoop sks mx sketch (countVotes mx chunkIds acc))"

definition findSimilarChunk :: "Repo \<Rightarrow> bytes \<Rightarrow> fault + ChunkId option" where
  "findSimilarChunk r chunk =
     bind (SketchChunk chunk (pol r) (chunkSize r) (sketchWSize r) (sketchSfCount r) (sketchFCount r))
       (\<lambda>sketch. let mx = 0 in Inr (snd (voteLoop (sketches r) mx sketch (\<lambda>_. 0, None))))"

subsection \<open>The stream matcher\<close>

text \<open>
  The state that \<^verbatim>\<open>matchStream\<close> and the encoders share: the repository \<open>repo\<close>
  (the receiver \<^verbatim>\<open>r\<close>, with its indices and cache), \<open>lastIdx\<close> (the counter
  \<^verbatim>\<open>last\<close>, passed by pointer), \<open>storeQueue\<close> (everything sent on the channel,
  in order) and the locals of the main loop: \<open>rest\<close> is the unread part of
  \<^verbatim>\<open>bufStream\<close>, \<open>eof\<close> says that \<^verbatim>\<open>err\<close> is \<^verbatim>\<open>io.EOF\<close> (a pipe whose
  writer was closed gives no other error). The field \<open>temps\<close> is a history
  variable: it records the payload of every call of \<^verbatim>\<open>NewTempChunk\<close>.
\<close>

record matcher =
  repo :: Repo
  lastIdx :: nat
  storeQueue :: "chunkData list"
  temps :: "bytes list"
  rest :: bytes
  eof :: bool
  buff :: bytes
  hasher :: hasher
  prev :: "bytes option"
  chunks :: "Chunk list"

definition NewTempChunk :: "bytes \<Rightarrow> matcher \<Rightarrow> matcher" where
  "NewTempChunk v m = m\<lparr>temps := temps m @ [v]\<rparr>"

definition tryDeltaEncodeChunk :: "repo_dir \<Rightarrow> bytes \<Rightarrow> matcher \<Rightarrow> fault + (Chunk \<times> bool \<times> matcher)" where
  "tryDeltaEncodeChunk fs temp m =
     bind (findSimilarChunk (repo m) temp) (\<lambda>found.
       case found of
         None \<Rightarrow> Inr (TempChunk temp, False, m)
       | Some i \<Rightarrow>
           bind (LoadChunkContent fs (repo m) i) (\<lambda>(source, r1).
             case differ r1 source temp of
               None \<Rightarrow> Inr (TempChunk temp, False, m\<lparr>repo := r1\<rparr>)
             | Some patch \<Rightarrow> Inr (DeltaChunk i patch (length temp), True, m\<lparr>repo := r1\<rparr>)))"

definition encodeTempChunk :: "repo_dir \<Rightarrow> bytes \<Rightarrow> nat \<Rightarrow> matcher \<Rightarrow> fault + (Chunk \<times> bool \<times> matcher)" where
  "encodeTempChunk fs temp version m =
     bind (tryDeltaEncodeChunk fs temp m) (\<lambda>(chunk, isDelta, m1).
       if isDelta then Inr (chunk, isDelta, m1)
       else if length temp = chunkSize (repo m1) then
         (let ci = \<lparr>Ver = version, Idx = lastIdx m1\<rparr>
          in bind (hashChunk (repo m1) ci temp) (\<lambda>(fp, sk, r2).
               Inr (StoredChunk ci, False,
                    m1\<lparr>lastIdx := lastIdx m1 + 1,
                       storeQueue := storeQueue m1
                          @ [\<lparr>hashes = \<lparr>Fp = fp, Sk = sk\<rparr>, content = temp, ident = ci\<rparr>],
                       repo := r2\<lparr>chunkCache := (chunkCache r2)(ci \<mapsto> temp)\<rparr>\<rparr>)))
       else Inr (chunk, isDelta, m1))"

definition chunkMinLen :: "Repo \<Rightarrow> fault + nat" where
  "chunkMinLen r = SuperFeatureSize (chunkSize r) (sketchSfCount r) (sketchFCount r)"

definition encodeTempChunks :: "repo_dir \<Rightarrow> bytes option \<Rightarrow> bytes \<Rightarrow> nat \<Rightarrow> matcher \<Rightarrow> fault + (Chunk list \<times> matcher)" where
  "encodeTempChunks fs prv cur version m =
     (case prv of
        None \<Rightarrow> bind (encodeTempChunk fs cur version m) (\<lambda>(c, _, m1). Inr ([c], m1))
      | Some p \<Rightarrow>
          bind (chunkMinLen (repo m)) (\<lambda>minLen.
            if length cur < minLen then
              (let tmp = p @ cur
               in bind (encodeTempChunk fs tmp version (NewTempChunk tmp m)) (\<lambda>(c, success, m1).
                    if success then Inr ([c], m1)
                    else Inr ([TempChunk p, TempChunk cur], m1)))
            else
              bind (encodeTempChunk fs p version m) (\<lambda>(prevD, _, m1).
                bind (encodeTempChunk fs cur version m1) (\<lambda>(curD, _, m2).
                  Inr ([prevD, curD], m2)))))"

text \<open>
  The five lines that read one byte, in both places where the source has them:
  at the end of the stream \<^verbatim>\<open>err\<close> becomes \<^verbatim>\<open>io.EOF\<close>, else the byte is rolled
  into the hasher and appended to \<^verbatim>\<open>buff\<close>.
\<close>

definition readRoll :: "matcher \<Rightarrow> matcher" where
  "readRoll m =
     (case rest m of
        [] \<Rightarrow> m\<lparr>eof := True\<rparr>
      | b # bs \<Rightarrow> m\<lparr>rest := bs, hasher := Roll (hasher m) b, buff := buff m @ [b]\<rparr>)"

text \<open>The refill loop after a hit: \<open>n\<close> iterations are left.\<close>

fun refill :: "nat \<Rightarrow> matcher \<Rightarrow> matcher" where
  "refill 0 m = m"
| "refill (Suc n) m = (if eof m then m else refill n (readRoll m))"

text \<open>One iteration of the main loop of \<^verbatim>\<open>matchStream\<close>.\<close>

definition matchHit :: "repo_dir \<Rightarrow> nat \<Rightarrow> ChunkId \<Rightarrow> matcher \<Rightarrow> fault + matcher" where
  "matchHit fs version chunkId m =
     bind
       (if length (buff m) > chunkSize (repo m) \<and> length (buff m) < chunkSize (repo m) * 2 then
          (let size = length (buff m) - chunkSize (repo m);
               temp = take size (buff m)
           in bind (encodeTempChunks fs (prev m) temp version (NewTempChunk temp m)) (\<lambda>(cs, m1).
                Inr (m1\<lparr>chunks := chunks m1 @ cs, prev := None\<rparr>)))
        else
          (case prev m of
             Some p \<Rightarrow>
               bind (encodeTempChunk fs p version m) (\<lambda>(c, _, m1).
                 Inr (m1\<lparr>chunks := chunks m1 @ [c], prev := None\<rparr>))
           | None \<Rightarrow> Inr m))
       (\<lambda>m2. Inr (refill (chunkSize (repo m2))
                    (m2\<lparr>chunks := chunks m2 @ [StoredChunk chunkId], buff := []\<rparr>)))"

definition matchMiss :: "repo_dir \<Rightarrow> nat \<Rightarrow> matcher \<Rightarrow> fault + matcher" where
  "matchMiss fs version m =
     bind
       (if length (buff m) = chunkSize (repo m) * 2 then
          bind
            (case prev m of
               Some p \<Rightarrow>
                 bind (encodeTempChunk fs p version m) (\<lambda>(chunk, _, m1).
                   Inr (m1\<lparr>chunks := chunks m1 @ [chunk]\<rparr>))
             | None \<Rightarrow> Inr m)
            (\<lambda>m1. let p = take (chunkSize (repo m1)) (buff m1);
                      m2 = NewTempChunk p m1
                  in Inr (m2\<lparr>prev := Some p, buff := drop (chunkSize (repo m2)) (buff m2)\<rparr>))
        else Inr m)
       (\<lambda>m3. Inr (readRoll m3))"

definition matchStep :: "repo_dir \<Rightarrow> nat \<Rightarrow> matcher \<Rightarrow> fault + matcher" where
  "matchStep fs version m =
     (let h = Sum64 (pol (repo m)) (hasher m)
      in case fingerprints (repo m) h of
           Some chunkId \<Rightarrow> matchHit fs version chunkId m
         | None \<Rightarrow> matchMiss fs version m)"

partial_function (option) matchLoop :: "repo_dir \<Rightarrow> nat \<Rightarrow> matcher \<Rightarrow> (fault + matcher) option" where
  "matchLoop fs version m =
     (if eof m then Some (Inr m)
      else case matchStep fs version m of
             Inl e \<Rightarrow> Some (Inl e)
           | Inr m1 \<Rightarrow> matchLoop fs version m1)"

declare matchLoop.simps [code]

text \<open>The part of \<^verbatim>\<open>matchStream\<close> after the main loop.\<close>

definition matchTail :: "repo_dir \<Rightarrow> nat \<Rightarrow> matcher \<Rightarrow> fault + matcher" where
  "matchTail fs version m =
     (if length (buff m) > 0 then
        bind
          (if length (buff m) > chunkSize (repo m) then
             bind
               (case prev m of
                  Some p \<Rightarrow>
                    bind (encodeTempChunk fs p version m) (\<lambda>(chunk, _, m1).
                      Inr (m1\<lparr>chunks := chunks m1 @ [chunk]\<rparr>))
                | None \<Rightarrow> Inr m)
               (\<lambda>m1. let p = take (chunkSize (repo m1)) (buff m1);
                         t = drop (chunkSize (repo m1)) (buff m1)
                     in Inr (t, (NewTempChunk t (NewTempChunk p m1))\<lparr>prev := Some p\<rparr>))
           else Inr (buff m, NewTempChunk (buff m) m))
          (\<lambda>(temp, m2).
             bind (encodeTempChunks fs (prev m2) temp version m2) (\<lambda>(cs, m3).
               Inr (m3\<lparr>chunks := chunks m3 @ cs\<rparr>)))
      else Inr m)"

text \<open>
  \<^verbatim>\<open>io.ReadFull\<close> of the standard library, on a stream that ends without any other
  error: the number of bytes read, the error and the unread part. The error is
  \<^verbatim>\<open>io.EOF\<close> only if no byte was read; where the stream ends after some but not
  all of the bytes, it is \<^verbatim>\<open>io.ErrUnexpectedEOF\<close>.
\<close>

datatype ioerr = EOF | ErrUnexpectedEOF

definition ReadFull :: "bytes \<Rightarrow> nat \<Rightarrow> nat \<times> ioerr option \<times> bytes" where
  "ReadFull stream len =
     (if len \<le> length stream then (len, None, drop len stream)
      else if stream = [] then (0, Some EOF, [])
      else (length stream, Some ErrUnexpectedEOF, []))"

definition initMatcher :: "Repo \<Rightarrow> matcher" where
  "initMatcher r =
     \<lparr>repo = r, lastIdx = 0, storeQueue = [], temps = [], rest = [], eof = False,
      buff = [], hasher = NewFromPol, prev = None, chunks = []\<rparr>"

subsection \<open>The storage worker\<close>

text \<open>
  What the operating system lets \<^verbatim>\<open>StoreChunkContent\<close> do with the file of a
  chunk is a parameter of the model: the write succeeds, or \<^verbatim>\<open>os.Create\<close> fails
  (no file), or the copy fails after some bytes, or one of the two \<^verbatim>\<open>Close\<close>
  calls fails after the content was written. The hashes file is taken to accept
  every record (the source ignores the error of \<^verbatim>\<open>Encode\<close>).
\<close>

datatype store_outcome = StoreOk | CreateFails | CopyFails nat | WrapperCloseFails | FileCloseFails

datatype log_entry = LogError ChunkId | LogInfo ChunkId

fun writeFile :: "nat \<Rightarrow> bytes \<Rightarrow> (nat \<times> bytes) list \<Rightarrow> (nat \<times> bytes) list" where
  "writeFile k v [] = [(k, v)]"
| "writeFile k v (e # es) = (if fst e = k then (k, v) # es else e # writeFile k v es)"

definition writeChunkFile :: "repo_dir \<Rightarrow> ChunkId \<Rightarrow> bytes \<Rightarrow> repo_dir" where
  "writeChunkFile fs i v =
     fs[Ver i := (fs ! Ver i)\<lparr>chunkFiles := writeFile (Idx i) v (chunkFiles (fs ! Ver i))\<rparr>]"

text \<open>\<^verbatim>\<open>StoreChunkContent\<close>: whether an error is returned, and the files after it.\<close>

definition StoreChunkContent :: "(ChunkId \<Rightarrow> store_outcome) \<Rightarrow> repo_dir \<Rightarrow> ChunkId \<Rightarrow> bytes \<Rightarrow> bool \<times> repo_dir" where
  "StoreChunkContent io fs i reader =
     (if Ver i \<ge> length fs then (True, fs)
      else case io i of
             CreateFails \<Rightarrow> (True, fs)
           | CopyFails n \<Rightarrow> (True, writeChunkFile fs i (take n reader))
           | WrapperCloseFails \<Rightarrow> (True, writeChunkFile fs i reader)
           | FileCloseFails \<Rightarrow> (True, writeChunkFile fs i reader)
           | StoreOk \<Rightarrow> (False, writeChunkFile fs i reader))"

definition appendHashes :: "repo_dir \<Rightarrow> nat \<Rightarrow> chunkHashes \<Rightarrow> repo_dir" where
  "appendHashes fs version h =
     fs[version := (fs ! version)
          \<lparr>hashesFile := Some ((case hashesFile (fs ! version) of None \<Rightarrow> [] | Some hs \<Rightarrow> hs) @ [h])\<rparr>]"

text \<open>The loop of \<^verbatim>\<open>storageWorker\<close> over the queue, on the files and the log.\<close>

fun storageLoop :: "(ChunkId \<Rightarrow> store_outcome) \<Rightarrow> nat \<Rightarrow> chunkData list
    \<Rightarrow> repo_dir \<times> log_entry list \<Rightarrow> repo_dir \<times> log_entry list" where
  "storageLoop io version [] acc = acc"
| "storageLoop io version (d # storeQ) (fs, lg) =
     (let fs1 = appendHashes fs version (hashes d);
          (failed, fs2) = StoreChunkContent io fs1 (ident d) (content d)
      in storageLoop io version storeQ
           (fs2, lg @ (if failed then [LogError (ident d)] else []) @ [LogInfo (ident d)]))"

text \<open>
  \<^verbatim>\<open>storageWorker\<close>: the hashes file is created (a panic when the directory of the
  version does not exist), then the queue is drained.
\<close>

definition storageWorker :: "(ChunkId \<Rightarrow> store_outcome) \<Rightarrow> repo_dir \<Rightarrow> nat \<Rightarrow> chunkData list
    \<Rightarrow> fault + (repo_dir \<times> log_entry list)" where
  "storageWorker io fs version storeQ =
     (if version \<ge> length fs then Inl PanicHashesFile
      else Inr (storageLoop io version storeQ
                  (fs[version := (fs ! version)\<lparr>hashesFile := Some []\<rparr>], [])))"

subsection \<open>\<^verbatim>\<open>matchStream\<close>\<close>

text \<open>
  The first read, then the worker is started, the main loop and the tail run, and
  the worker is waited for. The worker is modelled as running once the matcher is
  done: the matcher reads a chunk of its own version from the cache, where
  \<^verbatim>\<open>encodeTempChunk\<close> has put it. The result is the final state of the
  matcher, whose field \<open>chunks\<close> is the recipe returned, with the files and the
  log; \<open>None\<close> stands for a main loop that does not end.
\<close>

definition matchStream :: "(ChunkId \<Rightarrow> store_outcome) \<Rightarrow> repo_dir \<Rightarrow> Repo \<Rightarrow> bytes \<Rightarrow> nat
    \<Rightarrow> (fault + (matcher \<times> repo_dir \<times> log_entry list)) option" where
  "matchStream io fs r stream version =
     (case ReadFull stream (chunkSize r) of (n, err, unread) \<Rightarrow>
        let bf = take n stream
        in if n < chunkSize r then
             (if err = Some EOF then
                Some (Inr ((NewTempChunk (take n bf) (initMatcher r))
                             \<lparr>chunks := [TempChunk (take n bf)]\<rparr>, fs, []))
              else Some (Inl PanicShortRead))
           else if version \<ge> length fs then Some (Inl PanicHashesFile)
           else
             (case matchLoop fs version
                     ((initMatcher r)\<lparr>rest := unread, buff := bf,
                                      hasher := Write NewFromPol bf\<rparr>) of
                None \<Rightarrow> None
              | Some (Inl e) \<Rightarrow> Some (Inl e)
              | Some (Inr m) \<Rightarrow>
                  Some (bind (matchTail fs version m) (\<lambda>m1.
                    bind (storageWorker io fs version (storeQueue m1)) (\<lambda>(fs1, lg).
                      Inr (m1, fs1, lg))))))"

subsection \<open>Commit and restore\<close>

text \<open>
  The source tree is the list of its regular files, in the order of
  \<^verbatim>\<open>filepath.Walk\<close>, each with its path and its bytes; all of them can be read.
\<close>

definition listFiles :: "(string \<times> bytes) list \<Rightarrow> File list" where
  "listFiles tree = map (\<lambda>(p, c). \<lparr>Path = p, Size = length c\<rparr>) tree"

definition unprefixFiles :: "File list \<Rightarrow> string \<Rightarrow> File list" where
  "unprefixFiles files prefix =
     map (\<lambda>f. if take (length prefix) (Path f) = prefix
               then f\<lparr>Path := drop (length prefix) (Path f)\<rparr> else f) files"

definition concatFiles :: "(string \<times> bytes) list \<Rightarrow> bytes" where
  "concatFiles tree = concat (map snd tree)"

definition newVersionDir :: version_dir where
  "newVersionDir = \<lparr>chunkFiles = [], hashesFile = None, filesFile = None, recipeFile = None\<rparr>"

definition Commit :: "(ChunkId \<Rightarrow> store_outcome) \<Rightarrow> Repo \<Rightarrow> repo_dir \<Rightarrow> string \<Rightarrow> (string \<times> bytes) list
    \<Rightarrow> (fault + (Repo \<times> repo_dir \<times> log_entry list)) option" where
  "Commit io r fs source tree =
     (let versions = fs;
          newVersion = length versions;
          fs1 = fs @ [newVersionDir];
          files = listFiles tree
      in case loadHashes r versions of
           Inl e \<Rightarrow> Some (Inl e)
         | Inr r1 \<Rightarrow>
             (case matchStream io fs1 r1 (concatFiles tree) newVersion of
                None \<Rightarrow> None
              | Some (Inl e) \<Rightarrow> Some (Inl e)
              | Some (Inr (m, fs2, lg)) \<Rightarrow>
                  Some (Inr (repo m,
                             fs2[newVersion := (fs2 ! newVersion)
                                   \<lparr>filesFile := Some (unprefixFiles files source),
                                    recipeFile := Some (chunks m)\<rparr>],
                             lg))))"

text \<open>
  Modelled from the spec: the readers of the chunk types of \<^verbatim>\<open>chunk.go\<close>
  (sections 3 and 4.6). A Stored chunk reads its payload from the chunk store, a
  Temp chunk is its bytes, a Delta chunk is the patcher applied to the payload of
  its source and its patch.
\<close>

definition chunkReader :: "repo_dir \<Rightarrow> Repo \<Rightarrow> Chunk \<Rightarrow> fault + (bytes \<times> Repo)" where
  "chunkReader fs r c =
     (case c of
        StoredChunk i \<Rightarrow> LoadChunkContent fs r i
      | TempChunk v \<Rightarrow> Inr (v, r)
      | DeltaChunk source patch sz \<Rightarrow>
          bind (LoadChunkContent fs r source) (\<lambda>(s, r1). Inr (patcher r1 s patch, r1)))"

fun restoreStream :: "repo_dir \<Rightarrow> Repo \<Rightarrow> Chunk list \<Rightarrow> fault + bytes" where
  "restoreStream fs r [] = Inr []"
| "restoreStream fs r (c # recipe) =
     bind (chunkReader fs r c) (\<lambda>(v, r1).
       bind (restoreStream fs r1 recipe) (\<lambda>stream. Inr (v @ stream)))"

text \<open>
  The loop of \<^verbatim>\<open>Restore\<close> over the file list: \<^verbatim>\<open>io.CopyN\<close> writes
  \<^verbatim>\<open>file.Size\<close> bytes of the stream into the file, or what is left of the stream.
\<close>

fun restoreFiles :: "File list \<Rightarrow> bytes \<Rightarrow> (string \<times> bytes) list" where
  "restoreFiles [] stream = []"
| "restoreFiles (f # files) stream =
     (Path f, take (Size f) stream) # restoreFiles files (drop (Size f) stream)"

definition Restore :: "Repo \<Rightarrow> repo_dir \<Rightarrow> fault + (string \<times> bytes) list" where
  "Restore r fs =
     (let versions = fs
      in if versions = [] then Inl PanicNoVersion
         else
           let latest = versions ! (length versions - 1)
           in case filesFile latest of
                None \<Rightarrow> Inl PanicBasicStruct
              | Some files \<Rightarrow>
                  (case recipeFile latest of
                     None \<Rightarrow> Inl PanicBasicStruct
                   | Some recipe \<Rightarrow>
                       bind (restoreStream fs r recipe) (\<lambda>stream.
                         Inr (restoreFiles files stream))))"

text \<open>
  Committing a tree into a fresh repository and restoring it with a fresh engine
  of the same parameters.
\<close>

definition roundTrip :: "(ChunkId \<Rightarrow> store_outcome) \<Rightarrow> Repo \<Rightarrow> string \<Rightarrow> (string \<times> bytes) list
    \<Rightarrow> (fault + (string \<times> bytes) list) option" where
  "roundTrip io r source tree =
     (case Commit io r [] source tree of
        None \<Rightarrow> None
      | Some (Inl e) \<Rightarrow> Some (Inl e)
      | Some (Inr (r1, fs, lg)) \<Rightarrow> Some (Restore r fs))"

text \<open>
  The recipe that \<^verbatim>\<open>matchStream\<close> returns, the payloads of the Temp chunks it
  has created, and the fingerprint index it leaves.
\<close>

definition recipeOf :: "(fault + (matcher \<times> repo_dir \<times> log_entry list)) option \<Rightarrow> (fault + Chunk list) option" where
  "recipeOf res = map_option (map_sum (\<lambda>e. e) (\<lambda>(m, fs, lg). chunks m)) res"

definition tempsOf :: "(fault + (matcher \<times> repo_dir \<times> log_entry list)) option \<Rightarrow> bytes list option" where
  "tempsOf res = (case res of Some (Inr (m, fs, lg)) \<Rightarrow> Some (temps m) | _ \<Rightarrow> None)"

definition fingerprintOf :: "(fault + (matcher \<times> repo_dir \<times> log_entry list)) option \<Rightarrow> u64 \<Rightarrow> ChunkId option" where
  "fingerprintOf res fp =
     (case res of Some (Inr (m, fs, lg)) \<Rightarrow> fingerprints (repo m) fp | _ \<Rightarrow> None)"

text \<open>The repository on disk after a commit, and the fault of a result.\<close>

definition committedDir :: "(fault + (Repo \<times> repo_dir \<times> log_entry list)) option \<Rightarrow> repo_dir option" where
  "committedDir res = (case res of Some (Inr (r, fs, lg)) \<Rightarrow> Some fs | _ \<Rightarrow> None)"

definition faultOf :: "fault + 'a \<Rightarrow> fault option" where
  "faultOf res = (case res of Inl e \<Rightarrow> Some e | Inr x \<Rightarrow> None)"

subsection \<open>Configurations\<close>

text \<open>
  \<^verbatim>\<open>NewRepo\<close>, with the three collaborators as parameters: chunks of 8 KiB,
  windows of 32 bytes, 3 super-features of 4 features each, empty indices.
\<close>

definition NewRepo :: "(bytes \<Rightarrow> u64) \<Rightarrow> (bytes \<Rightarrow> bytes \<Rightarrow> bytes option) \<Rightarrow> (bytes \<Rightarrow> bytes \<Rightarrow> bytes) \<Rightarrow> Repo" where
  "NewRepo p d pa =
     \<lparr>chunkSize = 8192, sketchWSize = 32, sketchSfCount = 3, sketchFCount = 4,
      pol = p, differ = d, patcher = pa,
      fingerprints = Map.empty, sketches = Map.empty, chunkCache = Map.empty\<rparr>"

text \<open>
  Collaborators for the examples: a hash that reads the window as a big-endian
  number (no two windows of the same length, up to 8 bytes, collide), a differ
  whose patch is the target itself, with its patcher, and a differ that always
  returns an error.
\<close>

definition exampleHash :: "bytes \<Rightarrow> u64" where
  "exampleHash w = foldl (\<lambda>h b. h * 256 + ucast b) 0 w"

definition copyDiffer :: "bytes \<Rightarrow> bytes \<Rightarrow> bytes option" where
  "copyDiffer source target = Some target"

definition copyPatcher :: "bytes \<Rightarrow> bytes \<Rightarrow> bytes" where
  "copyPatcher source patch = patch"

definition failingDiffer :: "bytes \<Rightarrow> bytes \<Rightarrow> bytes option" where
  "failingDiffer source target = None"

definition smallRepo :: "nat \<Rightarrow> nat \<Rightarrow> nat \<Rightarrow> nat \<Rightarrow> Repo" where
  "smallRepo cs w sf f =
     (NewRepo exampleHash copyDiffer copyPatcher)
       \<lparr>chunkSize := cs, sketchWSize := w, sketchSfCount := sf, sketchFCount := f\<rparr>"

definition allStored :: "ChunkId \<Rightarrow> store_outcome" where
  "allStored i = StoreOk"

subsection \<open>Notions used in the statements\<close>

text \<open>
  The candidates of a similarity search, in the order in which the two loops of
  \<^verbatim>\<open>findSimilarChunk\<close> visit them.
\<close>

definition candidates :: "(u64 \<rightharpoonup> ChunkId list) \<Rightarrow> u64 list \<Rightarrow> ChunkId list" where
  "candidates sks sketch = concat (map (\<lambda>s. case sks s of None \<Rightarrow> [] | Some l \<Rightarrow> l) sketch)"

text \<open>
  Whether \<^verbatim>\<open>StoreChunkContent\<close> returns an error for a queued chunk, and what
  the file of the chunk holds after it.
\<close>

definition storeFailed :: "(ChunkId \<Rightarrow> store_outcome) \<Rightarrow> repo_dir \<Rightarrow> chunkData \<Rightarrow> bool" where
  "storeFailed io fs d = (Ver (ident d) \<ge> length fs \<or> io (ident d) \<noteq> StoreOk)"

definition fileAfter :: "(ChunkId \<Rightarrow> store_outcome) \<Rightarrow> repo_dir \<Rightarrow> chunkData \<Rightarrow> bytes option" where
  "fileAfter io fs d =
     (if Ver (ident d) \<ge> length fs then None
      else case io (ident d) of
             CreateFails \<Rightarrow> readChunkFile fs (ident d)
           | CopyFails n \<Rightarrow> Some (take n (content d))
           | _ \<Rightarrow> Some (content d))"

subsection \<open>Example inputs\<close>

text \<open>
  A repository of one version with two chunks of 3 bytes, for a similarity search
  with 3 super-features of one feature each.
\<close>

definition votesDir :: repo_dir where
  "votesDir = [newVersionDir\<lparr>chunkFiles := [(0, [1, 2, 9]), (1, [7, 7, 3])]\<rparr>]"

text \<open>An engine whose fingerprint index already knows the chunk \<open>[1, 1]\<close>.\<close>

definition firstSeen :: Repo where
  "firstSeen = (smallRepo 2 1 1 1)\<lparr>fingerprints := [257 \<mapsto> \<lparr>Ver = 0, Idx = 0\<rparr>]\<rparr>"

text \<open>
  A queue of two chunks for the storage worker, and an operating system that
  refuses to create the file of the first.
\<close>

definition twoChunks :: "chunkData list" where
  "twoChunks =
     [\<lparr>hashes = \<lparr>Fp = 257, Sk = [72057594037927936]\<rparr>, content = [1, 1], ident = \<lparr>Ver = 0, Idx = 0\<rparr>\<rparr>,
      \<lparr>hashes = \<lparr>Fp = 514, Sk = [144115188075855872]\<rparr>, content = [2, 2], ident = \<lparr>Ver = 0, Idx = 1\<rparr>\<rparr>]"

definition firstFails :: "ChunkId \<Rightarrow> store_outcome" where
  "firstFails i = (if Idx i = 0 then CreateFails else StoreOk)"

text \<open>
  Two chunks of 10 bytes with the same sketch, and the state of a matcher that has
  stored the first.
\<close>

definition chunkA :: bytes where
  "chunkA = [9, 0, 0, 0, 0, 0, 0, 0, 0, 0]"

definition chunkB :: bytes where
  "chunkB = [0, 9, 0, 0, 0, 0, 0, 0, 0, 0]"

definition knowsA :: matcher where
  "knowsA =
     (case encodeTempChunk [] chunkA 0 (initMatcher (smallRepo 10 1 1 1)) of
        Inr (c, isDelta, m) \<Rightarrow> m
      | Inl e \<Rightarrow> initMatcher (smallRepo 10 1 1 1))"

subsection \<open>Invariants of the matcher\<close>

text \<open>Two engines with the same parameters and collaborators.\<close>

definition sameConfig :: "Repo \<Rightarrow> Repo \<Rightarrow> bool" where
  "sameConfig r r1 \<longleftrightarrow>
     chunkSize r1 = chunkSize r \<and> sketchWSize r1 = sketchWSize r
     \<and> sketchSfCount r1 = sketchSfCount r \<and> sketchFCount r1 = sketchFCount r
     \<and> pol r1 = pol r \<and> differ r1 = differ r \<and> patcher r1 = patcher r"

text \<open>Two states of the matcher with the same locals of the main loop.\<close>

definition sameLocals :: "matcher \<Rightarrow> matcher \<Rightarrow> bool" where
  "sameLocals m m1 \<longleftrightarrow>
     rest m1 = rest m \<and> eof m1 = eof m \<and> buff m1 = buff m \<and> hasher m1 = hasher m
     \<and> prev m1 = prev m \<and> chunks m1 = chunks m"

text \<open>
  Item \<open>k\<close> of the store queue of version \<open>v\<close>: its identifier is \<open>(v, k)\<close>
  and its hashes are those of its content.
\<close>

definition queueItemOk :: "nat \<Rightarrow> Repo \<Rightarrow> nat \<Rightarrow> chunkData \<Rightarrow> bool" where
  "queueItemOk v r k d \<longleftrightarrow>
     ident d = \<lparr>Ver = v, Idx = k\<rparr> \<and> length (content d) = chunkSize r
     \<and> Fp (hashes d) = makeFingerprint r (content d)
     \<and> makeSketch r (content d) = Inr (Sk (hashes d))"

definition queueOk :: "nat \<Rightarrow> Repo \<Rightarrow> chunkData list \<Rightarrow> bool" where
  "queueOk v r q \<longleftrightarrow> (\<forall>k < length q. queueItemOk v r k (q ! k))"

text \<open>
  The invariant of the encoders for version \<open>v\<close> on an engine with the
  parameters of \<open>r\<close>, and the invariant of the main loop of \<^verbatim>\<open>matchStream\<close>,
  which adds the bounds of the buffer.
\<close>

definition encInv :: "nat \<Rightarrow> Repo \<Rightarrow> matcher \<Rightarrow> bool" where
  "encInv v r m \<longleftrightarrow>
     sameConfig r (repo m) \<and> 0 < chunkSize r
     \<and> (\<forall>p. prev m = Some p \<longrightarrow> length p = chunkSize r \<and> p \<in> set (temps m))
     \<and> (\<forall>t \<in> set (temps m). 1 \<le> length t \<and> length t < 2 * chunkSize r)
     \<and> (\<forall>t. TempChunk t \<in> set (chunks m) \<longrightarrow> t \<in> set (temps m))
     \<and> lastIdx m = length (storeQueue m)
     \<and> queueOk v r (storeQueue m)"

definition matcherInv :: "nat \<Rightarrow> Repo \<Rightarrow> matcher \<Rightarrow> bool" where
  "matcherInv v r m \<longleftrightarrow>
     encInv v r m \<and> length (buff m) \<le> 2 * chunkSize r
     \<and> (\<not> eof m \<longrightarrow> chunkSize r \<le> length (buff m))"

text \<open>What is left to read, counting the read that finds the end of the stream.\<close>

definition unread :: "matcher \<Rightarrow> nat" where
  "unread m = length (rest m) + (if eof m then 0 else 1)"

subsection \<open>Committed repositories\<close>

text \<open>
  The repositories that commits of a fresh engine \<open>r\<close> build, one process per
  commit, with every chunk write succeeding.
\<close>

inductive committed :: "Repo \<Rightarrow> repo_dir \<Rightarrow> bool" where
  committed_empty: "committed r []"
| committed_commit:
    "committed r fs \<Longrightarrow> Commit allStored r fs source tree = Some (Inr (r1, fs1, lg)) \<Longrightarrow>
     committed r fs1"

text \<open>
  A version directory whose hashes file, if there is one, has one record per
  chunk file, record \<open>k\<close> being the hashes of the file named \<open>k\<close>.
\<close>

definition versionOk :: "Repo \<Rightarrow> version_dir \<Rightarrow> bool" where
  "versionOk r vd \<longleftrightarrow>
     (case hashesFile vd of
        None \<Rightarrow> chunkFiles vd = []
      | Some hs \<Rightarrow>
          map fst (chunkFiles vd) = [0..<length hs]
          \<and> (\<forall>k < length hs. Fp (hs ! k) = makeFingerprint r (snd (chunkFiles vd ! k))
                \<and> makeSketch r (snd (chunkFiles vd ! k)) = Inr (Sk (hs ! k))))"

text \<open>Two engines with the same indices; a cache that agrees with the chunk files.\<close>

definition sameIndex :: "Repo \<Rightarrow> Repo \<Rightarrow> bool" where
  "sameIndex r r1 \<longleftrightarrow> fingerprints r1 = fingerprints r \<and> sketches r1 = sketches r"

definition cacheOk :: "repo_dir \<Rightarrow> Repo \<Rightarrow> bool" where
  "cacheOk fs r \<longleftrightarrow> (\<forall>i v. chunkCache r i = Some v \<longrightarrow> readChunkFile fs i = Some v)"

text \<open>The identifiers that \<^verbatim>\<open>loadChunks\<close> gives to the chunk files of version \<open>i\<close>.\<close>

definition chunkIdsOf :: "repo_dir \<Rightarrow> nat \<Rightarrow> ChunkId list" where
  "chunkIdsOf versions i = map (\<lambda>j. \<lparr>Ver = i, Idx = j\<rparr>) [0..<length (chunkFiles (versions ! i))]"

text \<open>
  Two trees, the repository after the first is committed into an empty one, the
  repository after the second is committed on top, and the repository after an
  empty tree is committed with the parameters of \<^verbatim>\<open>NewRepo\<close>.
\<close>

definition treeOne :: "(string \<times> bytes) list" where
  "treeOne = [(''src/a'', [1, 1, 2, 2]), (''src/b'', [3, 3, 4])]"

definition treeTwo :: "(string \<times> bytes) list" where
  "treeTwo = [(''src/a'', [1, 1, 2, 2]), (''src/b'', [3, 3, 4]), (''src/c'', [5, 5, 1])]"

definition versionOne :: version_dir where
  "versionOne =
     \<lparr>chunkFiles = [(0, [1, 1]), (1, [2, 2])],
      hashesFile = Some [\<lparr>Fp = 257, Sk = [72057594037927936]\<rparr>,
                         \<lparr>Fp = 514, Sk = [144115188075855872]\<rparr>],
      filesFile = Some [\<lparr>Path = ''/a'', Size = 4\<rparr>, \<lparr>Path = ''/b'', Size = 3\<rparr>],
      recipeFile = Some [StoredChunk \<lparr>Ver = 0, Idx = 0\<rparr>, StoredChunk \<lparr>Ver = 0, Idx = 1\<rparr>,
                         TempChunk [3, 3], TempChunk [4]]\<rparr>"

definition versionTwo :: version_dir where
  "versionTwo =
     \<lparr>chunkFiles = [(0, [3, 3]), (1, [4, 5])],
      hashesFile = Some [\<lparr>Fp = 771, Sk = [216172782113783808]\<rparr>,
                         \<lparr>Fp = 1029, Sk = [360287970189639680]\<rparr>],
      filesFile = Some [\<lparr>Path = ''/a'', Size = 4\<rparr>, \<lparr>Path = ''/b'', Size = 3\<rparr>,
                        \<lparr>Path = ''/c'', Size = 3\<rparr>],
      recipeFile = Some [StoredChunk \<lparr>Ver = 0, Idx = 0\<rparr>, StoredChunk \<lparr>Ver = 0, Idx = 1\<rparr>,
                         StoredChunk \<lparr>Ver = 1, Idx = 0\<rparr>, StoredChunk \<lparr>Ver = 1, Idx = 1\<rparr>,
                         DeltaChunk \<lparr>Ver = 1, Idx = 1\<rparr> [5, 1] 2]\<rparr>"

definition emptyCommitDir :: repo_dir where
  "emptyCommitDir =
     [\<lparr>chunkFiles = [], hashesFile = None, filesFile = Some [],
       recipeFile = Some [TempChunk []]\<rparr>]"

section \<open>Properties\<close>

subsection \<open>The size of a sketch\<close>

lemma length_featuresLoop:
  "n * fSize \<le> length chunk \<Longrightarrow> length (featuresLoop p w fSize n chunk) = n"
proof (induction n arbitrary: chunk)
  case 0
  then show ?case by simp
next
  case (Suc n)
  from Suc.prems have a: "fSize \<le> length chunk" and b: "n * fSize \<le> length (drop fSize chunk)"
    by simp_all
  show ?case using a Suc.IH [OF b] by simp
qed

lemma length_superfeaturesLoop:
  "length (superfeaturesLoop p fCount features sf n) = n"
  by (induction n arbitrary: sf) (simp_all add: Let_def)

lemma div_by_quotient:
  fixes c k :: nat
  assumes "c mod k < c div k"
  shows "c div (c div k) = k"
proof -
  define q r where "q = c div k" and "r = c mod k"
  have q: "q \<noteq> 0" and r: "r < q" using assms by (simp_all add: q_def r_def)
  have c: "c = r + k * q" by (simp add: q_def r_def)
  have "(r + k * q) div q = r div q + k" using q by simp
  then have "c div q = k" using r c by simp
  then show ?thesis by (simp add: q_def)
qed

text \<open>
  C8 (as amended). \<^verbatim>\<open>SketchChunk\<close> is a function of the chunk bytes, the hash
  and the four parameters. Where the feature size \<open>cs div (sf * fc)\<close> is not zero,
  a chunk of \<open>cs\<close> bytes has \<open>cs div (cs div (sf * fc)) div fc\<close> super-features,
  in order; these are exactly \<open>sf\<close> where the remainder of \<open>cs\<close> by \<open>sf * fc\<close>
  is less than the feature size, as it is for the parameters of \<^verbatim>\<open>NewRepo\<close>
  (8192 = 12 * 682 + 8), where a chunk of 8192 bytes has exactly 3.
\<close>

theorem SketchChunk_count:
  assumes "sf * fc \<noteq> 0"
    and "cs div (sf * fc) \<noteq> 0"
    and "length chunk = cs"
  shows "\<exists>sk. SketchChunk chunk p cs ws sf fc = Inr sk
           \<and> length sk = cs div (cs div (sf * fc)) div fc
           \<and> (cs mod (sf * fc) < cs div (sf * fc)
                \<longrightarrow> length sk = sf)"
proof -
  let ?fSize = "cs div (sf * fc)"
  have f0: "fc \<noteq> 0" using assms(1) by simp
  have "(length chunk div ?fSize) * ?fSize \<le> length chunk" by simp
  then have len: "length (featuresLoop p ws ?fSize (length chunk div ?fSize) chunk)
      = cs div ?fSize"
    using assms(3) length_featuresLoop by blast
  have sk: "SketchChunk chunk p cs ws sf fc
      = Inr (superfeaturesLoop p fc
               (featuresLoop p ws ?fSize (length chunk div ?fSize) chunk) 0
               (cs div ?fSize div fc))"
    using assms(1,2) f0 len
    by (simp add: SketchChunk_def FeatureSize_def bind_def Let_def)
  have "cs mod (sf * fc) < ?fSize \<Longrightarrow> cs div ?fSize div fc = sf"
    using div_by_quotient [of cs "sf * fc"] f0 by simp
  then show ?thesis using sk by (simp add: length_superfeaturesLoop)
qed

theorem SketchChunk_count_witness:
  "\<exists>sk. SketchChunk (replicate 8192 0) exampleHash 8192 32 3 4 = Inr sk \<and> length sk = 3"
  using SketchChunk_count [of 3 4 8192 "replicate 8192 0" exampleHash 32] by simp

text \<open>
  C8 (as stated) fails for other parameters: with \<open>chunkSize = 23\<close>, 3
  super-features and 4 features each, the feature size is 1, a chunk of 23 bytes
  has 23 features and so 5 super-features.
\<close>

theorem SketchChunk_count_counterexample:
  "SketchChunk (replicate 23 0) exampleHash 23 32 3 4 = Inr [0, 0, 0, 0, 0]"
  by code_simp

subsection \<open>Similarity search\<close>

lemma countVotes_last:
  "snd (countVotes 0 chunkIds acc) = (if chunkIds = [] then snd acc else Some (last chunkIds))"
  by (induction chunkIds arbitrary: acc) (auto simp: Let_def)

lemma voteLoop_last:
  "snd (voteLoop sks 0 sketch acc)
     = (if candidates sks sketch = [] then snd acc else Some (last (candidates sks sketch)))"
proof (induction sketch arbitrary: acc)
  case Nil
  then show ?case by (simp add: candidates_def)
next
  case (Cons s sketch)
  show ?case
  proof (cases "sks s")
    case None
    then show ?thesis using Cons.IH [of acc] by (simp add: candidates_def)
  next
    case (Some l)
    then show ?thesis using Cons.IH [of "countVotes 0 l acc"]
      by (simp add: candidates_def countVotes_last)
  qed
qed

text \<open>
  Whatever the votes, \<^verbatim>\<open>findSimilarChunk\<close> returns the last candidate that its
  loops visit: the comparison \<^verbatim>\<open>count > max\<close> always succeeds, since \<^verbatim>\<open>max\<close>
  stays 0.
\<close>

lemma findSimilarChunk_last_candidate:
  "makeSketch r chunk = Inr sketch \<Longrightarrow>
   findSimilarChunk r chunk
     = Inr (if candidates (sketches r) sketch = [] then None
            else Some (last (candidates (sketches r) sketch)))"
  by (simp add: findSimilarChunk_def makeSketch_def bind_def voteLoop_last)

text \<open>
  C5 fails on the code. The chunks \<open>[1, 2, 9]\<close> and \<open>[7, 7, 3]\<close> of \<open>votesDir\<close>
  are hashed into the indices, as \<^verbatim>\<open>hashChunks\<close> does. For the query \<open>[1, 2, 3]\<close>
  the first chunk appears under two of the three super-features and the second
  under one; the vote counts are 2 and 1, and the search returns the second.
\<close>

theorem findSimilarChunk_fewer_votes:
  "bind (hashChunks votesDir (smallRepo 3 1 3 1) (loadChunks votesDir)) (\<lambda>r.
     bind (makeSketch r [1, 2, 3]) (\<lambda>sketch.
       bind (findSimilarChunk r [1, 2, 3]) (\<lambda>found.
         Inr (map (fst (voteLoop (sketches r) 0 sketch (\<lambda>_. 0, None)))
                  [\<lparr>Ver = 0, Idx = 0\<rparr>, \<lparr>Ver = 0, Idx = 1\<rparr>], found))))
   = Inr ([2, 1], Some \<lparr>Ver = 0, Idx = 1\<rparr>)"
  by code_simp

subsection \<open>The fingerprint index\<close>

lemma loadHashesRecords_append:
  "loadHashesRecords r v j (hs1 @ hs2)
     = loadHashesRecords (loadHashesRecords r v j hs1) v (j + length hs1) hs2"
  by (induction hs1 arbitrary: r j) (simp_all add: Let_def)

lemma loadHashesRecords_other:
  "fp \<notin> Fp ` set hs \<Longrightarrow> fingerprints (loadHashesRecords r v j hs) fp = fingerprints r fp"
  by (induction hs arbitrary: r j) (simp_all add: Let_def)

text \<open>
  C6 (as amended). The fingerprint index is a map, so a fingerprint has at most
  one identifier; an insertion overwrites. Where the index holds \<open>i1\<close> under a
  fingerprint and \<^verbatim>\<open>hashChunk\<close> inserts a chunk \<open>i2\<close> with the same fingerprint,
  the index holds \<open>i2\<close> afterwards; and after \<^verbatim>\<open>loadHashes\<close> has read a hashes
  file, a fingerprint has the identifier of the last record that carries it.
\<close>

theorem fingerprints_last_write_wins:
  "(fingerprints r fp = Some i1 \<and> hashChunk r i2 c = Inr (fp, sk, r1) \<longrightarrow> fingerprints r1 fp = Some i2)
   \<and> (Fp h \<notin> Fp ` set hs2 \<longrightarrow>
        fingerprints (loadHashesRecords r v j (hs1 @ [h] @ hs2)) (Fp h)
          = Some \<lparr>Ver = v, Idx = j + length hs1\<rparr>)"
proof (intro conjI impI)
  assume "fingerprints r fp = Some i1 \<and> hashChunk r i2 c = Inr (fp, sk, r1)"
  then show "fingerprints r1 fp = Some i2"
    by (auto simp: hashChunk_def bind_def Let_def split: sum.splits)
next
  assume "Fp h \<notin> Fp ` set hs2"
  then show "fingerprints (loadHashesRecords r v j (hs1 @ [h] @ hs2)) (Fp h)
          = Some \<lparr>Ver = v, Idx = j + length hs1\<rparr>"
    by (simp add: loadHashesRecords_append loadHashesRecords_other Let_def)
qed

theorem fingerprints_last_write_wins_witness:
  "fingerprints firstSeen 257 = Some \<lparr>Ver = 0, Idx = 0\<rparr>
   \<and> map_sum (\<lambda>e. e) (\<lambda>(fp, sk, r1). (fp, fingerprints r1 fp))
        (hashChunk firstSeen \<lparr>Ver = 0, Idx = 1\<rparr> [1, 1])
       = Inr (257, Some \<lparr>Ver = 0, Idx = 1\<rparr>)
   \<and> fingerprints (loadHashesRecords firstSeen 0 0
         ([\<lparr>Fp = 5, Sk = []\<rparr>] @ [\<lparr>Fp = 5, Sk = []\<rparr>] @ [\<lparr>Fp = 6, Sk = []\<rparr>])) 5
       = Some \<lparr>Ver = 0, Idx = 1\<rparr>"
proof -
  have a: "fingerprints firstSeen 257 = Some \<lparr>Ver = 0, Idx = 0\<rparr>"
    by (simp add: firstSeen_def)
  obtain sk r1 where b: "hashChunk firstSeen \<lparr>Ver = 0, Idx = 1\<rparr> [1, 1] = Inr (257, sk, r1)"
    by (simp add: hashChunk_def makeFingerprint_def makeSketch_def firstSeen_def smallRepo_def
        NewRepo_def SketchChunk_def FeatureSize_def bind_def Sum64_def Write_def NewFromPol_def
        exampleHash_def)
  have c: "Fp \<lparr>Fp = 5, Sk = []\<rparr> \<notin> Fp ` set [\<lparr>Fp = 6 :: u64, Sk = []\<rparr>]" by simp
  note t = fingerprints_last_write_wins [of firstSeen 257 "\<lparr>Ver = 0, Idx = 0\<rparr>"
      "\<lparr>Ver = 0, Idx = 1\<rparr>" "[1, 1]" sk r1
      "\<lparr>Fp = 5, Sk = []\<rparr>" "[\<lparr>Fp = 6, Sk = []\<rparr>]" 0 0 "[\<lparr>Fp = 5, Sk = []\<rparr>]"]
  from t a b have d: "fingerprints r1 257 = Some \<lparr>Ver = 0, Idx = 1\<rparr>" by blast
  from t c have e: "fingerprints (loadHashesRecords firstSeen 0 0
         ([\<lparr>Fp = 5, Sk = []\<rparr>] @ [\<lparr>Fp = 5, Sk = []\<rparr>] @ [\<lparr>Fp = 6, Sk = []\<rparr>])) 5
       = Some \<lparr>Ver = 0, Idx = 1\<rparr>" by simp
  show ?thesis using a b d e by simp
qed

text \<open>
  C6 (as stated) fails: the first identifier is not the one retained. With a
  differ that returns an error, the stream \<open>[1, 1, 1, 1]\<close> of two equal chunks of 2
  bytes is stored as two chunks, and the fingerprint 257 of both ends with the
  identifier of the second.
\<close>

theorem fingerprints_first_wins_counterexample:
  "recipeOf (matchStream allStored [newVersionDir]
               ((smallRepo 2 1 1 1)\<lparr>differ := failingDiffer\<rparr>) [1, 1, 1, 1] 0)
     = Some (Inr [StoredChunk \<lparr>Ver = 0, Idx = 0\<rparr>, StoredChunk \<lparr>Ver = 0, Idx = 1\<rparr>])
   \<and> fingerprintOf (matchStream allStored [newVersionDir]
                      ((smallRepo 2 1 1 1)\<lparr>differ := failingDiffer\<rparr>) [1, 1, 1, 1] 0) 257
     = Some \<lparr>Ver = 0, Idx = 1\<rparr>"
  by code_simp

subsection \<open>The storage worker\<close>

lemma map_of_writeFile: "map_of (writeFile k v es) = (map_of es)(k \<mapsto> v)"
  by (induction es) (auto simp: fun_eq_iff)

lemma length_writeChunkFile [simp]: "length (writeChunkFile fs i v) = length fs"
  by (simp add: writeChunkFile_def)

lemma hashesFile_writeChunkFile [simp]:
  "hashesFile (writeChunkFile fs i v ! k) = hashesFile (fs ! k)"
  by (cases "Ver i < length fs"; cases "k = Ver i") (simp_all add: writeChunkFile_def list_update_beyond)

lemma readChunkFile_writeChunkFile:
  "Ver i < length fs \<Longrightarrow>
   readChunkFile (writeChunkFile fs i v) i' = (if i' = i then Some v else readChunkFile fs i')"
  by (cases "Ver i' = Ver i")
     (auto simp: readChunkFile_def writeChunkFile_def map_of_writeFile ChunkId.equality)

lemma length_appendHashes [simp]: "length (appendHashes fs v h) = length fs"
  by (simp add: appendHashes_def)

lemma hashesFile_appendHashes:
  "v < length fs \<Longrightarrow> hashesFile (fs ! v) = Some hs \<Longrightarrow>
   hashesFile (appendHashes fs v h ! v) = Some (hs @ [h])"
  by (simp add: appendHashes_def)

lemma readChunkFile_appendHashes [simp]:
  "readChunkFile (appendHashes fs v h) i = readChunkFile fs i"
  by (cases "v < length fs"; cases "Ver i = v") (simp_all add: readChunkFile_def appendHashes_def)

lemma length_StoreChunkContent [simp]: "length (snd (StoreChunkContent io fs i c)) = length fs"
  by (simp add: StoreChunkContent_def split: store_outcome.splits)

lemma hashesFile_StoreChunkContent [simp]:
  "hashesFile (snd (StoreChunkContent io fs i c) ! k) = hashesFile (fs ! k)"
  by (simp add: StoreChunkContent_def split: store_outcome.splits)

lemma fst_StoreChunkContent:
  "fst (StoreChunkContent io fs i c) = (Ver i \<ge> length fs \<or> io i \<noteq> StoreOk)"
  by (simp add: StoreChunkContent_def split: store_outcome.splits)

lemma readChunkFile_StoreChunkContent_other:
  "i' \<noteq> i \<Longrightarrow> readChunkFile (snd (StoreChunkContent io fs i c)) i' = readChunkFile fs i'"
  by (simp add: StoreChunkContent_def readChunkFile_writeChunkFile split: store_outcome.splits)

lemma readChunkFile_StoreChunkContent_same:
  "readChunkFile (snd (StoreChunkContent io fs (ident d) (content d))) (ident d) = fileAfter io fs d"
proof (cases "Ver (ident d) < length fs")
  case True
  then show ?thesis
    by (simp add: StoreChunkContent_def fileAfter_def readChunkFile_writeChunkFile
        split: store_outcome.splits)
next
  case False
  then show ?thesis
    by (simp add: StoreChunkContent_def fileAfter_def readChunkFile_def)
qed

lemma fileAfter_cong:
  "length fs1 = length fs \<Longrightarrow> readChunkFile fs1 (ident d) = readChunkFile fs (ident d) \<Longrightarrow>
   fileAfter io fs1 d = fileAfter io fs d"
  by (simp add: fileAfter_def split: store_outcome.splits)

lemma storageLoop_hashes_log:
  assumes "version < length fs" and "hashesFile (fs ! version) = Some hs"
  shows "length (fst (storageLoop io version storeQ (fs, lg))) = length fs
     \<and> hashesFile (fst (storageLoop io version storeQ (fs, lg)) ! version)
         = Some (hs @ map hashes storeQ)
     \<and> snd (storageLoop io version storeQ (fs, lg))
         = lg @ concat (map (\<lambda>d. (if storeFailed io fs d then [LogError (ident d)] else [])
                                   @ [LogInfo (ident d)]) storeQ)"
  using assms
proof (induction storeQ arbitrary: fs lg hs)
  case Nil
  then show ?case by simp
next
  case (Cons d storeQ)
  let ?fs1 = "appendHashes fs version (hashes d)"
  let ?fs2 = "snd (StoreChunkContent io ?fs1 (ident d) (content d))"
  let ?lg2 = "lg @ (if storeFailed io fs d then [LogError (ident d)] else []) @ [LogInfo (ident d)]"
  have step: "storageLoop io version (d # storeQ) (fs, lg) = storageLoop io version storeQ (?fs2, ?lg2)"
    by (simp add: Let_def split_beta fst_StoreChunkContent storeFailed_def)
  have len: "length ?fs2 = length fs" by simp
  have v: "version < length ?fs2" using Cons.prems(1) by simp
  have h: "hashesFile (?fs2 ! version) = Some (hs @ [hashes d])"
    using Cons.prems(1,2) by (simp add: hashesFile_appendHashes)
  have failed_eq: "\<And>e. storeFailed io ?fs2 e = storeFailed io fs e"
    by (simp add: storeFailed_def)
  show ?case
    unfolding step using Cons.IH [OF v h, of ?lg2] by (simp add: failed_eq)
qed

lemma storageLoop_files:
  assumes "distinct (map ident storeQ)"
  shows "length (fst (storageLoop io version storeQ (fs, lg))) = length fs
     \<and> (\<forall>d \<in> set storeQ. readChunkFile (fst (storageLoop io version storeQ (fs, lg))) (ident d)
                             = fileAfter io fs d)
     \<and> (\<forall>i. i \<notin> ident ` set storeQ \<longrightarrow>
              readChunkFile (fst (storageLoop io version storeQ (fs, lg))) i = readChunkFile fs i)"
  using assms
proof (induction storeQ arbitrary: fs lg)
  case Nil
  then show ?case by simp
next
  case (Cons d storeQ)
  let ?fs1 = "appendHashes fs version (hashes d)"
  let ?fs2 = "snd (StoreChunkContent io ?fs1 (ident d) (content d))"
  let ?lg2 = "lg @ (if storeFailed io fs d then [LogError (ident d)] else []) @ [LogInfo (ident d)]"
  have step: "storageLoop io version (d # storeQ) (fs, lg) = storageLoop io version storeQ (?fs2, ?lg2)"
    by (simp add: Let_def split_beta fst_StoreChunkContent storeFailed_def)
  have len: "length ?fs2 = length fs" by simp
  have dist: "distinct (map ident storeQ)" and notin: "ident d \<notin> ident ` set storeQ"
    using Cons.prems by simp_all
  note IH = Cons.IH [OF dist, of ?fs2 ?lg2]
  have same: "readChunkFile ?fs2 (ident d) = fileAfter io fs d"
    using readChunkFile_StoreChunkContent_same [of io ?fs1 d] fileAfter_cong [of ?fs1 fs d io]
    by simp
  have other: "\<And>i. i \<noteq> ident d \<Longrightarrow> readChunkFile ?fs2 i = readChunkFile fs i"
    by (simp add: readChunkFile_StoreChunkContent_other)
  have after_eq: "\<And>e. e \<in> set storeQ \<Longrightarrow> fileAfter io ?fs2 e = fileAfter io fs e"
  proof -
    fix e assume "e \<in> set storeQ"
    then have "ident e \<noteq> ident d" using notin by (metis imageI)
    then show "fileAfter io ?fs2 e = fileAfter io fs e"
      using fileAfter_cong [of ?fs2 fs e io] other len by simp
  qed
  show ?case
    unfolding step using IH notin same other after_eq by (auto simp: len)
qed

text \<open>
  C10. Where the directory of the version exists, the storage worker ends without
  a panic whatever the outcomes of the chunk writes; the hashes file holds the
  record of every chunk of the queue, in order, whether or not the write of its
  payload failed; the log holds an error for each failed write and an
  \<^verbatim>\<open>Info\<close> line for every chunk, so that the worker goes on after a failure;
  and, the identifiers of the queue being distinct, the file of a chunk holds
  what the outcome of its write left: nothing new where the file could not be
  created.
\<close>

theorem storageWorker_not_atomic:
  assumes "version < length fs"
  shows "\<exists>fs1 lg. storageWorker io fs version storeQ = Inr (fs1, lg)
     \<and> hashesFile (fs1 ! version) = Some (map hashes storeQ)
     \<and> lg = concat (map (\<lambda>d. (if storeFailed io fs d then [LogError (ident d)] else [])
                               @ [LogInfo (ident d)]) storeQ)
     \<and> (distinct (map ident storeQ) \<longrightarrow>
          (\<forall>d \<in> set storeQ. readChunkFile fs1 (ident d) = fileAfter io fs d))"
proof -
  let ?fs0 = "fs[version := (fs ! version)\<lparr>hashesFile := Some []\<rparr>]"
  have v: "version < length ?fs0" and h: "hashesFile (?fs0 ! version) = Some []"
    using assms(1) by simp_all
  have rd: "\<And>i. readChunkFile ?fs0 i = readChunkFile fs i"
    using assms(1) by (simp add: readChunkFile_def nth_list_update)
  have fa: "\<And>d. fileAfter io ?fs0 d = fileAfter io fs d"
    using fileAfter_cong [of ?fs0 fs _ io] rd by simp
  have sf: "\<And>d. storeFailed io ?fs0 d = storeFailed io fs d"
    by (simp add: storeFailed_def)
  show ?thesis
    using storageLoop_hashes_log [OF v h, of io storeQ "[]"]
      storageLoop_files [of storeQ io version ?fs0 "[]"] assms(1)
    by (simp add: storageWorker_def fa sf split_beta prod_eq_iff)
qed

theorem storageWorker_not_atomic_witness:
  "\<exists>fs1 lg. storageWorker firstFails [newVersionDir] 0 twoChunks = Inr (fs1, lg)
     \<and> hashesFile (fs1 ! 0) = Some (map hashes twoChunks)
     \<and> lg = [LogError \<lparr>Ver = 0, Idx = 0\<rparr>, LogInfo \<lparr>Ver = 0, Idx = 0\<rparr>, LogInfo \<lparr>Ver = 0, Idx = 1\<rparr>]
     \<and> readChunkFile fs1 \<lparr>Ver = 0, Idx = 0\<rparr> = None
     \<and> readChunkFile fs1 \<lparr>Ver = 0, Idx = 1\<rparr> = Some [2, 2]"
proof -
  have v: "0 < length [newVersionDir]" by simp
  from storageWorker_not_atomic [OF v, of firstFails twoChunks]
  obtain fs1 lg where w: "storageWorker firstFails [newVersionDir] 0 twoChunks = Inr (fs1, lg)"
    and h: "hashesFile (fs1 ! 0) = Some (map hashes twoChunks)"
    and l: "lg = concat (map (\<lambda>d. (if storeFailed firstFails [newVersionDir] d
                                    then [LogError (ident d)] else []) @ [LogInfo (ident d)])
                           twoChunks)"
    and f: "distinct (map ident twoChunks) \<longrightarrow>
        (\<forall>d \<in> set twoChunks. readChunkFile fs1 (ident d) = fileAfter firstFails [newVersionDir] d)"
    by blast
  have l2: "lg = [LogError \<lparr>Ver = 0, Idx = 0\<rparr>, LogInfo \<lparr>Ver = 0, Idx = 0\<rparr>, LogInfo \<lparr>Ver = 0, Idx = 1\<rparr>]"
    unfolding l by (simp add: twoChunks_def storeFailed_def firstFails_def)
  have "distinct (map ident twoChunks)" by (simp add: twoChunks_def)
  with f have g: "\<forall>d \<in> set twoChunks. readChunkFile fs1 (ident d) = fileAfter firstFails [newVersionDir] d"
    by blast
  have m: "twoChunks ! 0 \<in> set twoChunks" "twoChunks ! 1 \<in> set twoChunks"
    by (simp_all add: twoChunks_def)
  have i: "ident (twoChunks ! 0) = \<lparr>Ver = 0, Idx = 0\<rparr>" "ident (twoChunks ! 1) = \<lparr>Ver = 0, Idx = 1\<rparr>"
    by (simp_all add: twoChunks_def)
  have a: "fileAfter firstFails [newVersionDir] (twoChunks ! 0) = None"
    "fileAfter firstFails [newVersionDir] (twoChunks ! 1) = Some [2, 2]"
    by (simp_all add: twoChunks_def fileAfter_def firstFails_def readChunkFile_def newVersionDir_def)
  from g m(1) have "readChunkFile fs1 (ident (twoChunks ! 0)) = fileAfter firstFails [newVersionDir] (twoChunks ! 0)"
    by blast
  then have f0: "readChunkFile fs1 \<lparr>Ver = 0, Idx = 0\<rparr> = None"
    by (simp only: i a)
  from g m(2) have "readChunkFile fs1 (ident (twoChunks ! 1)) = fileAfter firstFails [newVersionDir] (twoChunks ! 1)"
    by blast
  then have f1: "readChunkFile fs1 \<lparr>Ver = 0, Idx = 1\<rparr> = Some [2, 2]"
    by (simp only: i a)
  show ?thesis using w h l2 f0 f1 by blast
qed

subsection \<open>Streams shorter than a chunk\<close>

text \<open>
  The first read of \<^verbatim>\<open>matchStream\<close> returns early only where
  \<^verbatim>\<open>io.ReadFull\<close> gives \<^verbatim>\<open>io.EOF\<close>, that is for the empty stream. A stream
  of at least one byte and less than a chunk gives \<^verbatim>\<open>io.ErrUnexpectedEOF\<close>,
  and the branch of \<^verbatim>\<open>logger.Panicf\<close> is taken.
\<close>

lemma matchStream_short_stream:
  "stream \<noteq> [] \<Longrightarrow> length stream < chunkSize r \<Longrightarrow>
   matchStream io fs r stream version = Some (Inl PanicShortRead)"
  by (simp add: matchStream_def ReadFull_def)

lemma matchStream_empty_stream:
  "0 < chunkSize r \<Longrightarrow> recipeOf (matchStream io fs r [] version) = Some (Inr [TempChunk []])"
  by (simp add: matchStream_def ReadFull_def recipeOf_def)

text \<open>
  C2 fails on the code: with the parameters of \<^verbatim>\<open>NewRepo\<close>, a stream of 590
  bytes does not give a recipe of one Temp chunk; \<^verbatim>\<open>matchStream\<close> panics.
\<close>

theorem matchStream_590_bytes_panics:
  "matchStream allStored [newVersionDir] (NewRepo exampleHash copyDiffer copyPatcher)
     (replicate 590 0) 0 = Some (Inl PanicShortRead)"
  by (simp add: matchStream_def ReadFull_def NewRepo_def)

subsection \<open>A hit on a full buffer\<close>

text \<open>
  Where the fingerprint of the window is found with \<^verbatim>\<open>buff\<close> holding exactly
  twice the chunk size and no chunk held back, the test
  \<^verbatim>\<open>len(buff) > r.chunkSize && len(buff) < r.chunkSize*2\<close> fails: the recipe
  receives the reference to the matched chunk only, and the buffer is emptied
  with its first half in no chunk. This holds for every chunk size.
\<close>

lemma matchHit_full_buffer:
  assumes "0 < chunkSize (repo m)" and "length (buff m) = chunkSize (repo m) * 2"
    and "prev m = None"
  shows "matchHit fs version chunkId m
     = Inr (refill (chunkSize (repo m)) (m\<lparr>chunks := chunks m @ [StoredChunk chunkId], buff := []\<rparr>))"
  using assms by (simp add: matchHit_def bind_def)

text \<open>
  C4 fails on the code. With chunks of 2 bytes, the stream \<open>[1, 1, 2, 2, 3, 3, 1, 1]\<close>
  hits the fingerprint of its first chunk when the buffer holds \<open>[3, 3, 1, 1]\<close>;
  the recipe is the first chunk, the second, and the first again: the bytes
  \<open>[3, 3]\<close> are in no chunk.
\<close>

theorem matchStream_drops_prefix:
  "recipeOf (matchStream allStored [newVersionDir] (smallRepo 2 1 1 1) [1, 1, 2, 2, 3, 3, 1, 1] 0)
     = Some (Inr [StoredChunk \<lparr>Ver = 0, Idx = 0\<rparr>, StoredChunk \<lparr>Ver = 0, Idx = 1\<rparr>,
                  StoredChunk \<lparr>Ver = 0, Idx = 0\<rparr>])"
  by code_simp

text \<open>
  C1 fails on the code, by the same hit on a full buffer: the tree of one file of
  these 8 bytes, committed into a fresh repository and restored, comes back as a
  file of 6 bytes.
\<close>

theorem roundTrip_loses_bytes:
  "roundTrip allStored (smallRepo 2 1 1 1) ''src'' [(''src/a'', [1, 1, 2, 2, 3, 3, 1, 1])]
     = Some (Inr [(''/a'', [1, 1, 2, 2, 1, 1])])"
  by code_simp

subsection \<open>The patch of a Delta chunk\<close>

text \<open>
  C3 (as amended). \<^verbatim>\<open>encodeTempChunk\<close> returns a Delta chunk exactly where
  \<^verbatim>\<open>findSimilarChunk\<close> finds a chunk and the differ returns a patch for it
  without an error; the chunk then carries that patch and the length of the
  payload. No bound on the size of the patch is tested: a chunk is stored, or
  kept as a Temp chunk, only where no similar chunk is found or the differ fails.
\<close>

theorem encodeTempChunk_delta_iff:
  assumes "encodeTempChunk fs temp version m = Inr (c, isDelta, m1)"
  shows "isDelta \<longleftrightarrow>
     (\<exists>i source r1 patch. findSimilarChunk (repo m) temp = Inr (Some i)
        \<and> LoadChunkContent fs (repo m) i = Inr (source, r1)
        \<and> differ r1 source temp = Some patch
        \<and> c = DeltaChunk i patch (length temp))"
  using assms
  by (auto simp: encodeTempChunk_def tryDeltaEncodeChunk_def bind_def Let_def
      split: sum.splits option.splits if_splits)


theorem encodeTempChunk_delta_iff_witness:
  "map_sum (\<lambda>e. e) (\<lambda>(c, isDelta, m). (c, isDelta)) (encodeTempChunk [] chunkB 0 knowsA)
     = Inr (DeltaChunk \<lparr>Ver = 0, Idx = 0\<rparr> chunkB 10, True)
   \<and> (\<exists>i source r1 patch. findSimilarChunk (repo knowsA) chunkB = Inr (Some i)
        \<and> LoadChunkContent [] (repo knowsA) i = Inr (source, r1)
        \<and> differ r1 source chunkB = Some patch
        \<and> \<not> length patch < chunkSize (repo knowsA) div 10)"
proof -
  have e: "map_sum (\<lambda>e. e) (\<lambda>(c, isDelta, m). (c, isDelta)) (encodeTempChunk [] chunkB 0 knowsA)
     = Inr (DeltaChunk \<lparr>Ver = 0, Idx = 0\<rparr> chunkB 10, True)"
    by code_simp
  then obtain m1 where m1: "encodeTempChunk [] chunkB 0 knowsA
      = Inr (DeltaChunk \<lparr>Ver = 0, Idx = 0\<rparr> chunkB 10, True, m1)"
    by (cases "encodeTempChunk [] chunkB 0 knowsA") auto
  have cs: "chunkSize (repo knowsA) div 10 = 1" by code_simp
  have len: "length chunkB = 10" by (simp add: chunkB_def)
  from encodeTempChunk_delta_iff [OF m1]
  obtain i source r1 patch where "findSimilarChunk (repo knowsA) chunkB = Inr (Some i)"
    "LoadChunkContent [] (repo knowsA) i = Inr (source, r1)"
    "differ r1 source chunkB = Some patch"
    "DeltaChunk \<lparr>Ver = 0, Idx = 0\<rparr> chunkB 10 = DeltaChunk i patch (length chunkB)"
    by blast
  then show ?thesis using e cs len by auto
qed


text \<open>
  C3 (as stated) fails: with chunks of 10 bytes and a differ whose patch is the
  target, the second chunk of the stream becomes a Delta chunk with a patch of 10
  bytes, which is not less than a tenth of the chunk size.
\<close>

theorem matchStream_large_patch_counterexample:
  "recipeOf (matchStream allStored [newVersionDir] (smallRepo 10 1 1 1) (chunkA @ chunkB) 0)
     = Some (Inr [StoredChunk \<lparr>Ver = 0, Idx = 0\<rparr>, DeltaChunk \<lparr>Ver = 0, Idx = 0\<rparr> chunkB 10])
   \<and> \<not> length chunkB < chunkSize (smallRepo 10 1 1 1) div 10"
  by code_simp

subsection \<open>The encoders keep the invariant\<close>

lemma bind_eq_Inr: "bind x f = Inr y \<longleftrightarrow> (\<exists>a. x = Inr a \<and> f a = Inr y)"
  by (cases x) (simp_all add: bind_def)

lemma bind_pair_eq_Inr:
  "bind x (\<lambda>(a, b). f a b) = Inr y \<longleftrightarrow> (\<exists>a b. x = Inr (a, b) \<and> f a b = Inr y)"
  by (cases x) (auto simp: bind_def)

lemma sameConfig_refl [simp]: "sameConfig r r"
  by (simp add: sameConfig_def)

lemma sameConfig_trans: "sameConfig r r1 \<Longrightarrow> sameConfig r1 r2 \<Longrightarrow> sameConfig r r2"
  by (simp add: sameConfig_def)

lemma sameConfig_makeSketch: "sameConfig r r1 \<Longrightarrow> makeSketch r1 c = makeSketch r c"
  by (simp add: sameConfig_def makeSketch_def)

lemma sameConfig_makeFingerprint: "sameConfig r r1 \<Longrightarrow> makeFingerprint r1 c = makeFingerprint r c"
  by (simp add: sameConfig_def makeFingerprint_def)

lemma sameConfig_chunkMinLen: "sameConfig r r1 \<Longrightarrow> chunkMinLen r1 = chunkMinLen r"
  by (simp add: sameConfig_def chunkMinLen_def)

lemma chunkMinLen_le: "chunkMinLen r = Inr n \<Longrightarrow> n \<le> chunkSize r"
proof -
  assume a: "chunkMinLen r = Inr n"
  let ?k = "sketchSfCount r * sketchFCount r"
  from a have k: "?k \<noteq> 0" and n: "n = chunkSize r div ?k * sketchSfCount r"
    by (auto simp: chunkMinLen_def SuperFeatureSize_def FeatureSize_def bind_def split: if_splits)
  from k have "sketchSfCount r \<le> ?k" by simp
  then have "chunkSize r div ?k * sketchSfCount r \<le> chunkSize r div ?k * ?k"
    by (rule mult_le_mono2)
  also have "\<dots> \<le> chunkSize r" by simp
  finally show ?thesis using n by simp
qed

lemma LoadChunkContent_effect:
  "LoadChunkContent fs r i = Inr (v, r1) \<Longrightarrow>
   sameConfig r r1 \<and> fingerprints r1 = fingerprints r \<and> sketches r1 = sketches r"
  by (auto simp: LoadChunkContent_def sameConfig_def split: option.splits)

lemma LoadChunkContent_config:
  "LoadChunkContent fs r i = Inr (v, r1) \<Longrightarrow> sameConfig r r1"
  by (simp add: LoadChunkContent_effect)

lemma hashChunk_effect:
  "hashChunk r i c = Inr (fp, sk, r1) \<Longrightarrow>
   sameConfig r r1 \<and> chunkCache r1 = chunkCache r \<and> fp = makeFingerprint r c
   \<and> makeSketch r c = Inr sk
   \<and> fingerprints r1 = (fingerprints r)(fp \<mapsto> i) \<and> sketches r1 = Set (sketches r) sk i"
  by (auto simp: hashChunk_def sameConfig_def bind_def Let_def split: sum.splits)

lemma tryDeltaEncodeChunk_effect:
  assumes "tryDeltaEncodeChunk fs temp m = Inr (c, isDelta, m1)"
  shows "sameLocals m m1 \<and> temps m1 = temps m \<and> lastIdx m1 = lastIdx m
     \<and> storeQueue m1 = storeQueue m \<and> sameConfig (repo m) (repo m1)
     \<and> (if isDelta then \<exists>i p. c = DeltaChunk i p (length temp) else c = TempChunk temp)"
proof -
  from assms obtain found where f: "findSimilarChunk (repo m) temp = Inr found"
    by (auto simp: tryDeltaEncodeChunk_def bind_def split: sum.splits)
  show ?thesis
  proof (cases found)
    case None
    then show ?thesis using assms f
      by (auto simp: tryDeltaEncodeChunk_def bind_def sameLocals_def)
  next
    case (Some i)
    with assms f obtain source r1 where l: "LoadChunkContent fs (repo m) i = Inr (source, r1)"
      by (auto simp: tryDeltaEncodeChunk_def bind_def split: sum.splits)
    have sc: "sameConfig (repo m) r1" using LoadChunkContent_effect [OF l] by simp
    show ?thesis
      using assms f Some l sc
      by (cases "differ r1 source temp")
         (auto simp: tryDeltaEncodeChunk_def bind_def sameLocals_def)
  qed
qed

lemma encodeTempChunk_effect:
  assumes "encodeTempChunk fs temp v m = Inr (c, isDelta, m1)"
  shows "sameLocals m m1 \<and> temps m1 = temps m \<and> sameConfig (repo m) (repo m1)
     \<and> (\<forall>t. c = TempChunk t \<longrightarrow> t = temp)
     \<and> ((lastIdx m1 = lastIdx m \<and> storeQueue m1 = storeQueue m)
        \<or> (lastIdx m1 = lastIdx m + 1 \<and> length temp = chunkSize (repo m)
            \<and> (\<exists>sk. makeSketch (repo m) temp = Inr sk
                 \<and> storeQueue m1 = storeQueue m
                     @ [\<lparr>hashes = \<lparr>Fp = makeFingerprint (repo m) temp, Sk = sk\<rparr>,
                         content = temp, ident = \<lparr>Ver = v, Idx = lastIdx m\<rparr>\<rparr>])))"
proof -
  from assms obtain c0 d0 m0 where t: "tryDeltaEncodeChunk fs temp m = Inr (c0, d0, m0)"
    by (auto simp: encodeTempChunk_def bind_def split: sum.splits)
  note e = tryDeltaEncodeChunk_effect [OF t]
  show ?thesis
  proof (cases "d0 \<or> length temp \<noteq> chunkSize (repo m0)")
    case True
    then have "c = c0 \<and> isDelta = d0 \<and> m1 = m0"
      using assms t by (auto simp: encodeTempChunk_def bind_def split: if_splits)
    then show ?thesis using e by (auto split: if_splits)
  next
    case False
    then have d0: "\<not> d0" and len: "length temp = chunkSize (repo m0)" by simp_all
    let ?ci = "\<lparr>Ver = v, Idx = lastIdx m0\<rparr>"
    from assms t d0 len obtain fp sk r2 where h: "hashChunk (repo m0) ?ci temp = Inr (fp, sk, r2)"
      and m1: "m1 = m0\<lparr>lastIdx := lastIdx m0 + 1,
                       storeQueue := storeQueue m0
                          @ [\<lparr>hashes = \<lparr>Fp = fp, Sk = sk\<rparr>, content = temp, ident = ?ci\<rparr>],
                       repo := r2\<lparr>chunkCache := (chunkCache r2)(?ci \<mapsto> temp)\<rparr>\<rparr>"
      and c: "c = StoredChunk ?ci"
      by (auto simp: encodeTempChunk_def bind_def Let_def split: sum.splits)
    note he = hashChunk_effect [OF h]
    have sc: "sameConfig (repo m) (repo m0)" using e by simp
    have "sameConfig (repo m) (repo m1)"
      using sc he by (simp add: m1 sameConfig_def)
    moreover have "sameLocals m m1" using e by (simp add: m1 sameLocals_def)
    moreover have "makeSketch (repo m) temp = Inr sk"
      using he sameConfig_makeSketch [OF sc] by simp
    moreover have "fp = makeFingerprint (repo m) temp"
      using he sameConfig_makeFingerprint [OF sc] by simp
    moreover have "length temp = chunkSize (repo m)" using len sc by (simp add: sameConfig_def)
    ultimately show ?thesis using e c by (simp add: m1)
  qed
qed


lemma queueOk_append:
  "queueOk v r q \<Longrightarrow> queueItemOk v r (length q) d \<Longrightarrow> queueOk v r (q @ [d])"
  by (auto simp: queueOk_def nth_append less_Suc_eq)

lemma encodeTempChunk_inv:
  assumes inv: "encInv v r m" and enc: "encodeTempChunk fs temp v m = Inr (c, isDelta, m1)"
  shows "encInv v r m1 \<and> sameLocals m m1 \<and> temps m1 = temps m \<and> (\<forall>t. c = TempChunk t \<longrightarrow> t = temp)"
proof -
  note e = encodeTempChunk_effect [OF enc]
  from inv have sc: "sameConfig r (repo m)" by (simp add: encInv_def)
  from e have loc: "sameLocals m m1" and tm: "temps m1 = temps m"
    and sc1: "sameConfig (repo m) (repo m1)" and ct: "\<forall>t. c = TempChunk t \<longrightarrow> t = temp"
    by simp_all
  have sc2: "sameConfig r (repo m1)" using sc sc1 by (rule sameConfig_trans)
  have q: "lastIdx m1 = length (storeQueue m1) \<and> queueOk v r (storeQueue m1)"
  proof -
    from e consider (same) "lastIdx m1 = lastIdx m" "storeQueue m1 = storeQueue m"
      | (stored) sk where "lastIdx m1 = lastIdx m + 1" "length temp = chunkSize (repo m)"
          "makeSketch (repo m) temp = Inr sk"
          "storeQueue m1 = storeQueue m
             @ [\<lparr>hashes = \<lparr>Fp = makeFingerprint (repo m) temp, Sk = sk\<rparr>,
                 content = temp, ident = \<lparr>Ver = v, Idx = lastIdx m\<rparr>\<rparr>]"
      by blast
    then show ?thesis
    proof cases
      case same
      then show ?thesis using inv by (simp add: encInv_def)
    next
      case stored
      let ?d = "\<lparr>hashes = \<lparr>Fp = makeFingerprint (repo m) temp, Sk = sk\<rparr>,
                 content = temp, ident = \<lparr>Ver = v, Idx = lastIdx m\<rparr>\<rparr>"
      have "queueItemOk v r (length (storeQueue m)) ?d"
        using inv stored sc sameConfig_makeSketch [OF sc] sameConfig_makeFingerprint [OF sc]
        by (simp add: queueItemOk_def encInv_def sameConfig_def)
      then have "queueOk v r (storeQueue m @ [?d])"
        using inv queueOk_append by (simp add: encInv_def)
      then show ?thesis using stored inv by (simp add: encInv_def)
    qed
  qed
  have "encInv v r m1"
    using inv loc tm sc2 q by (simp add: encInv_def sameLocals_def)
  then show ?thesis using loc tm ct by simp
qed

lemma NewTempChunk_inv:
  assumes "encInv v r m" and "1 \<le> length t" and "length t < 2 * chunkSize r"
  shows "encInv v r (NewTempChunk t m) \<and> sameLocals m (NewTempChunk t m)
     \<and> temps (NewTempChunk t m) = temps m @ [t]"
  using assms by (auto simp: encInv_def NewTempChunk_def sameLocals_def)

lemma sameLocals_trans: "sameLocals m m1 \<Longrightarrow> sameLocals m1 m2 \<Longrightarrow> sameLocals m m2"
  by (simp add: sameLocals_def)

lemma encodeTempChunks_inv:
  assumes inv: "encInv v r m"
    and prv: "\<forall>p. prv = Some p \<longrightarrow> length p = chunkSize r \<and> p \<in> set (temps m)"
    and cur: "cur \<in> set (temps m)"
    and enc: "encodeTempChunks fs prv cur v m = Inr (cs, m1)"
  shows "encInv v r m1 \<and> sameLocals m m1 \<and> set (temps m) \<subseteq> set (temps m1)
     \<and> (\<forall>t. TempChunk t \<in> set cs \<longrightarrow> t \<in> set (temps m1))"
proof (cases prv)
  case None
  with enc obtain c d where e: "encodeTempChunk fs cur v m = Inr (c, d, m1)" and cs: "cs = [c]"
    by (auto simp: encodeTempChunks_def bind_def split: sum.splits)
  from encodeTempChunk_inv [OF inv e] cur cs show ?thesis by auto
next
  case (Some p)
  from inv have sc: "sameConfig r (repo m)" by (simp add: encInv_def)
  from enc Some obtain minLen where ml: "chunkMinLen (repo m) = Inr minLen"
    by (auto simp: encodeTempChunks_def bind_def split: sum.splits)
  then have mle: "minLen \<le> chunkSize r"
    using chunkMinLen_le [of r minLen] sameConfig_chunkMinLen [OF sc] by simp
  from prv Some have p: "length p = chunkSize r" "p \<in> set (temps m)" by simp_all
  from inv cur have c1: "1 \<le> length cur" by (auto simp: encInv_def)
  show ?thesis
  proof (cases "length cur < minLen")
    case True
    let ?tmp = "p @ cur"
    let ?m0 = "NewTempChunk ?tmp m"
    from enc Some ml True obtain c success where
      e: "encodeTempChunk fs ?tmp v ?m0 = Inr (c, success, m1)"
      and cs: "cs = (if success then [c] else [TempChunk p, TempChunk cur])"
      by (auto simp: encodeTempChunks_def bind_def Let_def split: sum.splits if_splits)
    have "1 \<le> length ?tmp" "length ?tmp < 2 * chunkSize r"
      using p True mle c1 by simp_all
    note n = NewTempChunk_inv [OF inv this]
    from n have i0: "encInv v r ?m0" by simp
    note r = encodeTempChunk_inv [OF i0 e]
    have tm0: "temps ?m0 = temps m @ [?tmp]" by (simp add: NewTempChunk_def)
    from r have tm1: "temps m1 = temps ?m0" and ct: "\<forall>t. c = TempChunk t \<longrightarrow> t = ?tmp"
      and i1: "encInv v r m1" by simp_all
    have tm: "temps m1 = temps m @ [?tmp]" using tm1 tm0 by simp
    have "sameLocals m m1" using n r sameLocals_trans by blast
    moreover have "\<forall>t. TempChunk t \<in> set cs \<longrightarrow> t \<in> set (temps m1)"
      unfolding tm using cs ct p(2) cur by auto
    moreover have "set (temps m) \<subseteq> set (temps m1)" unfolding tm by auto
    ultimately show ?thesis using i1 by simp
  next
    case False
    from enc Some ml False obtain prevD d1 m2 curD d2 where
      e1: "encodeTempChunk fs p v m = Inr (prevD, d1, m2)"
      and e2: "encodeTempChunk fs cur v m2 = Inr (curD, d2, m1)"
      and cs: "cs = [prevD, curD]"
      by (auto simp: encodeTempChunks_def bind_def Let_def split: sum.splits if_splits)
    note r1 = encodeTempChunk_inv [OF inv e1]
    from r1 have i2: "encInv v r m2" by simp
    note r2 = encodeTempChunk_inv [OF i2 e2]
    have "sameLocals m m1" using r1 r2 sameLocals_trans by blast
    moreover have "temps m1 = temps m" using r1 r2 by simp
    moreover have "\<forall>t. TempChunk t \<in> set cs \<longrightarrow> t \<in> set (temps m1)"
      using cs r1 r2 p cur by auto
    ultimately show ?thesis using r2 by auto
  qed
qed

subsection \<open>The main loop keeps the invariant and ends\<close>

lemma readRoll_effect:
  "repo (readRoll m) = repo m \<and> lastIdx (readRoll m) = lastIdx m
   \<and> storeQueue (readRoll m) = storeQueue m \<and> temps (readRoll m) = temps m
   \<and> prev (readRoll m) = prev m \<and> chunks (readRoll m) = chunks m"
  by (simp add: readRoll_def split: list.splits)

lemma readRoll_buff:
  "\<not> eof m \<Longrightarrow>
   (eof (readRoll m) \<longrightarrow> buff (readRoll m) = buff m)
   \<and> (\<not> eof (readRoll m) \<longrightarrow> length (buff (readRoll m)) = length (buff m) + 1)
   \<and> unread (readRoll m) < unread m"
  by (simp add: readRoll_def unread_def split: list.splits)

lemma encInv_readRoll: "encInv v r m \<Longrightarrow> encInv v r (readRoll m)"
  using readRoll_effect [of m] by (simp add: encInv_def)

lemma refill_effect:
  "repo (refill n m) = repo m \<and> lastIdx (refill n m) = lastIdx m
   \<and> storeQueue (refill n m) = storeQueue m \<and> temps (refill n m) = temps m
   \<and> prev (refill n m) = prev m \<and> chunks (refill n m) = chunks m"
  by (induction n arbitrary: m) (simp_all add: readRoll_effect)

lemma encInv_refill: "encInv v r m \<Longrightarrow> encInv v r (refill n m)"
  using refill_effect [of n m] by (simp add: encInv_def)

lemma refill_buff:
  "\<not> eof m \<Longrightarrow>
   length (buff (refill n m)) \<le> length (buff m) + n
   \<and> (\<not> eof (refill n m) \<longrightarrow> length (buff (refill n m)) = length (buff m) + n)
   \<and> unread (refill n m) \<le> unread m
   \<and> (0 < n \<longrightarrow> unread (refill n m) < unread m)"
proof (induction n arbitrary: m)
  case 0
  then show ?case by simp
next
  case (Suc n)
  note rr = readRoll_buff [OF Suc.prems]
  show ?case
  proof (cases "eof (readRoll m)")
    case True
    have "refill n (readRoll m) = readRoll m" using True by (cases n) simp_all
    then show ?thesis using Suc.prems rr True by simp
  next
    case False
    from Suc.IH [OF False] rr False Suc.prems show ?thesis by simp
  qed
qed

lemma matchHit_inv:
  assumes inv: "matcherInv v r m" and ne: "\<not> eof m"
    and hit: "matchHit fs v chunkId m = Inr m1"
  shows "matcherInv v r m1 \<and> unread m1 < unread m"
proof -
  from inv have ei: "encInv v r m" and cs0: "0 < chunkSize r"
    and sc: "chunkSize (repo m) = chunkSize r"
    and b1: "length (buff m) \<le> 2 * chunkSize r" and b2: "chunkSize r \<le> length (buff m)"
    and pv: "\<forall>p. prev m = Some p \<longrightarrow> length p = chunkSize r \<and> p \<in> set (temps m)"
    using ne by (simp_all add: matcherInv_def encInv_def sameConfig_def)
  from hit obtain m2 where
    st: "(if length (buff m) > chunkSize (repo m) \<and> length (buff m) < chunkSize (repo m) * 2 then
          (let size = length (buff m) - chunkSize (repo m);
               temp = take size (buff m)
           in bind (encodeTempChunks fs (prev m) temp v (NewTempChunk temp m)) (\<lambda>(cs, m1).
                Inr (m1\<lparr>chunks := chunks m1 @ cs, prev := None\<rparr>)))
        else
          (case prev m of
             Some p \<Rightarrow>
               bind (encodeTempChunk fs p v m) (\<lambda>(c, _, m1).
                 Inr (m1\<lparr>chunks := chunks m1 @ [c], prev := None\<rparr>))
           | None \<Rightarrow> Inr m)) = Inr m2"
    and m1: "m1 = refill (chunkSize (repo m2))
                    (m2\<lparr>chunks := chunks m2 @ [StoredChunk chunkId], buff := []\<rparr>)"
    by (auto simp: matchHit_def bind_def split: sum.splits)
  have m2: "encInv v r m2 \<and> rest m2 = rest m \<and> eof m2 = eof m"
  proof (cases "length (buff m) > chunkSize (repo m) \<and> length (buff m) < chunkSize (repo m) * 2")
    case True
    let ?temp = "take (length (buff m) - chunkSize (repo m)) (buff m)"
    let ?m0 = "NewTempChunk ?temp m"
    from st True obtain cs m3 where
      e: "encodeTempChunks fs (prev m) ?temp v ?m0 = Inr (cs, m3)"
      and m2': "m2 = m3\<lparr>chunks := chunks m3 @ cs, prev := None\<rparr>"
      by (auto simp: bind_def Let_def split: sum.splits)
    have l: "1 \<le> length ?temp" "length ?temp < 2 * chunkSize r"
      using True sc by auto
    note n = NewTempChunk_inv [OF ei l]
    from n have i0: "encInv v r ?m0" and t0: "temps ?m0 = temps m @ [?temp]" by simp_all
    have p0: "\<forall>p. prev m = Some p \<longrightarrow> length p = chunkSize r \<and> p \<in> set (temps ?m0)"
      using pv t0 by simp
    have c0: "?temp \<in> set (temps ?m0)" using t0 by simp
    note r = encodeTempChunks_inv [OF i0 p0 c0 e]
    from r n have loc: "sameLocals m m3" using sameLocals_trans by blast
    from r have i3: "encInv v r m3" and tc: "\<forall>t. TempChunk t \<in> set cs \<longrightarrow> t \<in> set (temps m3)"
      by simp_all
    have "encInv v r m2" using i3 tc by (auto simp: m2' encInv_def)
    then show ?thesis using loc by (simp add: m2' sameLocals_def)
  next
    case False
    show ?thesis
    proof (cases "prev m")
      case None
      with st False have "m2 = m" by simp
      then show ?thesis using ei by simp
    next
      case (Some p)
      with st False obtain c d m3 where e: "encodeTempChunk fs p v m = Inr (c, d, m3)"
        and m2': "m2 = m3\<lparr>chunks := chunks m3 @ [c], prev := None\<rparr>"
        by (auto simp: bind_def split: sum.splits)
      note r = encodeTempChunk_inv [OF ei e]
      from r have i3: "encInv v r m3" and loc: "sameLocals m m3" and tm: "temps m3 = temps m"
        and ct: "\<forall>t. c = TempChunk t \<longrightarrow> t = p" by simp_all
      have "p \<in> set (temps m3)" using pv Some tm by simp
      then have "encInv v r m2" using i3 ct by (auto simp: m2' encInv_def)
      then show ?thesis using loc by (simp add: m2' sameLocals_def)
    qed
  qed
  let ?m4 = "m2\<lparr>chunks := chunks m2 @ [StoredChunk chunkId], buff := []\<rparr>"
  have i4: "encInv v r ?m4" using m2 by (auto simp: encInv_def)
  have ne4: "\<not> eof ?m4" using m2 ne by simp
  have cs2: "chunkSize (repo m2) = chunkSize r" using m2 by (simp add: encInv_def sameConfig_def)
  note rb = refill_buff [OF ne4, of "chunkSize r"]
  have "unread ?m4 = unread m" using m2 by (simp add: unread_def)
  then have "unread m1 < unread m" using rb cs0 by (simp add: m1 cs2)
  moreover have "matcherInv v r m1"
    using encInv_refill [OF i4] rb by (simp add: matcherInv_def m1 cs2)
  ultimately show ?thesis by simp
qed


lemma flushPrev_inv:
  assumes ei: "encInv v r m"
    and st: "(case prev m of
               Some p \<Rightarrow>
                 bind (encodeTempChunk fs p v m) (\<lambda>(chunk, _, m1).
                   Inr (m1\<lparr>chunks := chunks m1 @ [chunk]\<rparr>))
             | None \<Rightarrow> Inr m) = Inr m2"
  shows "encInv v r m2 \<and> rest m2 = rest m \<and> eof m2 = eof m \<and> buff m2 = buff m
     \<and> hasher m2 = hasher m \<and> set (temps m) \<subseteq> set (temps m2)"
proof (cases "prev m")
  case None
  with st have "m2 = m" by simp
  then show ?thesis using ei by simp
next
  case (Some p)
  with st obtain c d m3 where e: "encodeTempChunk fs p v m = Inr (c, d, m3)"
    and m2': "m2 = m3\<lparr>chunks := chunks m3 @ [c]\<rparr>"
    by (auto simp: bind_def split: sum.splits)
  note r = encodeTempChunk_inv [OF ei e]
  from r have i3: "encInv v r m3" and loc: "sameLocals m m3" and tm: "temps m3 = temps m"
    and ct: "\<forall>t. c = TempChunk t \<longrightarrow> t = p" by simp_all
  have "p \<in> set (temps m3)" using ei Some tm by (simp add: encInv_def)
  then have "encInv v r m2" using i3 ct by (auto simp: m2' encInv_def)
  then show ?thesis using loc tm by (simp add: m2' sameLocals_def)
qed

lemma matchMiss_inv:
  assumes inv: "matcherInv v r m" and ne: "\<not> eof m"
    and miss: "matchMiss fs v m = Inr m1"
  shows "matcherInv v r m1 \<and> unread m1 < unread m"
proof -
  from inv have ei: "encInv v r m" and cs0: "0 < chunkSize r"
    and sc: "chunkSize (repo m) = chunkSize r"
    and b1: "length (buff m) \<le> 2 * chunkSize r" and b2: "chunkSize r \<le> length (buff m)"
    using ne by (simp_all add: matcherInv_def encInv_def sameConfig_def)
  show ?thesis
  proof (cases "length (buff m) = chunkSize (repo m) * 2")
    case False
    with miss have m1: "m1 = readRoll m" by (simp add: matchMiss_def bind_def)
    have "length (buff m) < 2 * chunkSize r" using False b1 sc by simp
    then show ?thesis
      using readRoll_buff [OF ne] encInv_readRoll [OF ei] b2
      by (auto simp: m1 matcherInv_def)
  next
    case True
    from miss True obtain m2 where
      st: "(case prev m of
               Some p \<Rightarrow>
                 bind (encodeTempChunk fs p v m) (\<lambda>(chunk, _, m1).
                   Inr (m1\<lparr>chunks := chunks m1 @ [chunk]\<rparr>))
             | None \<Rightarrow> Inr m) = Inr m2"
      and m1: "m1 = readRoll ((NewTempChunk (take (chunkSize (repo m2)) (buff m2)) m2)
                 \<lparr>prev := Some (take (chunkSize (repo m2)) (buff m2)),
                  buff := drop (chunkSize (repo (NewTempChunk (take (chunkSize (repo m2)) (buff m2)) m2)))
                            (buff (NewTempChunk (take (chunkSize (repo m2)) (buff m2)) m2))\<rparr>)"
      by (auto simp: matchMiss_def bind_def Let_def split: sum.splits)
    note f = flushPrev_inv [OF ei st]
    from f have i2: "encInv v r m2" and cs2: "chunkSize (repo m2) = chunkSize r"
      by (simp_all add: encInv_def sameConfig_def)
    let ?p = "take (chunkSize r) (buff m)"
    have lp: "length ?p = chunkSize r" using True sc by simp
    then have l: "1 \<le> length ?p" "length ?p < 2 * chunkSize r" using cs0 by simp_all
    note n = NewTempChunk_inv [OF i2 l]
    let ?m3 = "(NewTempChunk ?p m2)\<lparr>prev := Some ?p, buff := drop (chunkSize r) (buff m)\<rparr>"
    have m1': "m1 = readRoll ?m3"
      using m1 f by (simp add: cs2 NewTempChunk_def)
    have i3: "encInv v r ?m3" using n lp by (auto simp: encInv_def)
    have ne3: "\<not> eof ?m3" using f ne by (simp add: NewTempChunk_def)
    have b3: "length (buff ?m3) = chunkSize r" using True sc by simp
    have u3: "unread ?m3 = unread m" using f by (simp add: unread_def NewTempChunk_def)
    show ?thesis
      using readRoll_buff [OF ne3] encInv_readRoll [OF i3] b3 u3 cs0
      unfolding m1' matcherInv_def by auto
  qed
qed

lemma matchStep_inv:
  assumes "matcherInv v r m" and "\<not> eof m" and "matchStep fs v m = Inr m1"
  shows "matcherInv v r m1 \<and> unread m1 < unread m"
proof (cases "fingerprints (repo m) (Sum64 (pol (repo m)) (hasher m))")
  case None
  with assms(3) have "matchMiss fs v m = Inr m1" by (simp add: matchStep_def)
  then show ?thesis using assms(1,2) by (rule matchMiss_inv [rotated 2])
next
  case (Some chunkId)
  with assms(3) have "matchHit fs v chunkId m = Inr m1" by (simp add: matchStep_def)
  then show ?thesis using assms(1,2) by (rule matchHit_inv [rotated 2])
qed

text \<open>
  The main loop ends, with a panic or in a state at the end of the stream in which
  the invariant holds.
\<close>

lemma matchLoop_inv:
  assumes "matcherInv v r m"
  shows "\<exists>res. matchLoop fs v m = Some res
           \<and> (\<forall>m1. res = Inr m1 \<longrightarrow> matcherInv v r m1 \<and> eof m1)"
  using assms
proof (induction m rule: measure_induct_rule [where f = unread])
  case (less m)
  show ?case
  proof (cases "eof m")
    case True
    then show ?thesis using less.prems by (subst matchLoop.simps) simp
  next
    case False
    show ?thesis
    proof (cases "matchStep fs v m")
      case (Inl e)
      then show ?thesis using False by (subst matchLoop.simps) simp
    next
      case (Inr m1)
      note s = matchStep_inv [OF less.prems False Inr]
      from s less.IH [of m1] obtain res where
        "matchLoop fs v m1 = Some res" "\<forall>m2. res = Inr m2 \<longrightarrow> matcherInv v r m2 \<and> eof m2"
        by blast
      then show ?thesis using False Inr by (subst matchLoop.simps) simp
    qed
  qed
qed

lemma encInv_set_prev:
  "encInv v r m \<Longrightarrow> length p = chunkSize r \<Longrightarrow> p \<in> set (temps m) \<Longrightarrow>
   encInv v r (m\<lparr>prev := Some p\<rparr>)"
  by (simp add: encInv_def)

lemma encInv_add_chunks:
  "encInv v r m \<Longrightarrow> \<forall>t. TempChunk t \<in> set cs \<longrightarrow> t \<in> set (temps m) \<Longrightarrow>
   encInv v r (m\<lparr>chunks := chunks m @ cs\<rparr>)"
  by (auto simp: encInv_def)

text \<open>The tail of \<^verbatim>\<open>matchStream\<close> keeps the invariant of the encoders.\<close>

lemma matchTail_inv:
  assumes inv: "matcherInv v r m" and tl: "matchTail fs v m = Inr m1"
  shows "encInv v r m1"
proof (cases "length (buff m) > 0")
  case False
  with tl have "m1 = m" by (simp add: matchTail_def)
  then show ?thesis using inv by (simp add: matcherInv_def)
next
  case True
  from inv have ei: "encInv v r m" and cs0: "0 < chunkSize r"
    and sc: "chunkSize (repo m) = chunkSize r"
    and b1: "length (buff m) \<le> 2 * chunkSize r"
    by (simp_all add: matcherInv_def encInv_def sameConfig_def)
  let ?first = "(if length (buff m) > chunkSize (repo m) then
             bind
               (case prev m of
                  Some p \<Rightarrow>
                    bind (encodeTempChunk fs p v m) (\<lambda>(chunk, _, m1).
                      Inr (m1\<lparr>chunks := chunks m1 @ [chunk]\<rparr>))
                | None \<Rightarrow> Inr m)
               (\<lambda>m1. let p = take (chunkSize (repo m1)) (buff m1);
                         t = drop (chunkSize (repo m1)) (buff m1)
                     in Inr (t, (NewTempChunk t (NewTempChunk p m1))\<lparr>prev := Some p\<rparr>))
           else Inr (buff m, NewTempChunk (buff m) m))"
  from tl True have "bind ?first (\<lambda>(temp, m2).
             bind (encodeTempChunks fs (prev m2) temp v m2) (\<lambda>(cs, m3).
               Inr (m3\<lparr>chunks := chunks m3 @ cs\<rparr>))) = Inr m1"
    by (simp add: matchTail_def)
  then obtain temp m2 where st: "?first = Inr (temp, m2)"
    and a2: "bind (encodeTempChunks fs (prev m2) temp v m2) (\<lambda>(cs, m3).
               Inr (m3\<lparr>chunks := chunks m3 @ cs\<rparr>)) = Inr m1"
    unfolding bind_pair_eq_Inr by blast
  from a2 obtain cs m3 where e: "encodeTempChunks fs (prev m2) temp v m2 = Inr (cs, m3)"
    and m1': "Inr (m3\<lparr>chunks := chunks m3 @ cs\<rparr>) = (Inr m1 :: fault + matcher)"
    unfolding bind_pair_eq_Inr by blast
  from m1' have m1: "m1 = m3\<lparr>chunks := chunks m3 @ cs\<rparr>" by simp
  have m2: "encInv v r m2 \<and> temp \<in> set (temps m2)"
  proof (cases "length (buff m) > chunkSize (repo m)")
    case False
    with st have t: "temp = buff m" and m2': "m2 = NewTempChunk (buff m) m" by auto
    have "1 \<le> length (buff m)" "length (buff m) < 2 * chunkSize r"
      using True False sc cs0 by (simp_all add: Suc_le_eq)
    from NewTempChunk_inv [OF ei this] show ?thesis by (simp add: t m2')
  next
    case long: True
    from st long obtain m4 where
      fl: "(case prev m of
                  Some p \<Rightarrow>
                    bind (encodeTempChunk fs p v m) (\<lambda>(chunk, _, m1).
                      Inr (m1\<lparr>chunks := chunks m1 @ [chunk]\<rparr>))
                | None \<Rightarrow> Inr m) = Inr m4"
      and tm2: "(let p = take (chunkSize (repo m4)) (buff m4);
                    t = drop (chunkSize (repo m4)) (buff m4)
                in Inr (t, (NewTempChunk t (NewTempChunk p m4))\<lparr>prev := Some p\<rparr>))
               = (Inr (temp, m2) :: fault + bytes \<times> matcher)"
      by (simp add: bind_eq_Inr) blast
    from tm2 have t: "temp = drop (chunkSize (repo m4)) (buff m4)"
      and m2': "m2 = (NewTempChunk (drop (chunkSize (repo m4)) (buff m4))
                        (NewTempChunk (take (chunkSize (repo m4)) (buff m4)) m4))
                     \<lparr>prev := Some (take (chunkSize (repo m4)) (buff m4))\<rparr>"
      by (auto simp: Let_def)
    note f = flushPrev_inv [OF ei fl]
    from f have i4: "encInv v r m4" and cs4: "chunkSize (repo m4) = chunkSize r"
      and b4: "buff m4 = buff m"
      by (simp_all add: encInv_def sameConfig_def)
    let ?p = "take (chunkSize r) (buff m)"
    let ?t = "drop (chunkSize r) (buff m)"
    have lp: "length ?p = chunkSize r" using long sc by simp
    then have l: "1 \<le> length ?p" "length ?p < 2 * chunkSize r" using cs0 by simp_all
    note n1 = NewTempChunk_inv [OF i4 l]
    from n1 have i5: "encInv v r (NewTempChunk ?p m4)" by simp
    have lt: "1 \<le> length ?t" "length ?t < 2 * chunkSize r"
      using long sc b1 cs0 by simp_all
    note n2 = NewTempChunk_inv [OF i5 lt]
    let ?m5 = "NewTempChunk ?t (NewTempChunk ?p m4)"
    from n2 have i6: "encInv v r ?m5" and t6: "temps ?m5 = temps (NewTempChunk ?p m4) @ [?t]"
      by simp_all
    from n1 have t5: "temps (NewTempChunk ?p m4) = temps m4 @ [?p]" by simp
    have m2'': "m2 = ?m5\<lparr>prev := Some ?p\<rparr>" by (simp add: m2' cs4 b4)
    have "?p \<in> set (temps ?m5)" by (simp add: t6 t5)
    then have "encInv v r m2"
      unfolding m2'' using i6 lp by (intro encInv_set_prev)
    moreover have "temp \<in> set (temps m2)"
      unfolding m2'' by (simp add: t6 t cs4 b4)
    ultimately show ?thesis by simp
  qed
  from m2 have i2: "encInv v r m2" and c2: "temp \<in> set (temps m2)" by simp_all
  have p2: "\<forall>p. prev m2 = Some p \<longrightarrow> length p = chunkSize r \<and> p \<in> set (temps m2)"
    using i2 by (simp add: encInv_def)
  note r = encodeTempChunks_inv [OF i2 p2 c2 e]
  from r have i3: "encInv v r m3" and tc: "\<forall>t. TempChunk t \<in> set cs \<longrightarrow> t \<in> set (temps m3)"
    by simp_all
  show ?thesis unfolding m1 using i3 tc by (rule encInv_add_chunks)
qed

subsection \<open>What \<^verbatim>\<open>matchStream\<close> returns\<close>

lemma matcherInv_init:
  assumes "0 < chunkSize r" and "chunkSize r \<le> length stream"
  shows "matcherInv v r ((initMatcher r)\<lparr>rest := drop (chunkSize r) stream,
            buff := take (chunkSize r) stream,
            hasher := Write NewFromPol (take (chunkSize r) stream)\<rparr>)"
  using assms
  by (simp add: matcherInv_def encInv_def initMatcher_def queueOk_def)

text \<open>
  \<^verbatim>\<open>matchStream\<close> returns for every chunk size above 0, and what it returns:
  either the stream is empty, or it has at least a chunk and the final state
  satisfies the invariant of the encoders, the worker having received the queue.
\<close>

lemma matchStream_terminates:
  assumes "0 < chunkSize r"
  shows "\<exists>res. matchStream io fs r stream version = Some res"
proof (cases "chunkSize r \<le> length stream")
  case False
  then show ?thesis by (simp add: matchStream_def ReadFull_def Let_def)
next
  case True
  from matchLoop_inv [OF matcherInv_init [OF assms True], where fs = fs and v = version]
  obtain res where "matchLoop fs version ((initMatcher r)\<lparr>rest := drop (chunkSize r) stream,
            buff := take (chunkSize r) stream,
            hasher := Write NewFromPol (take (chunkSize r) stream)\<rparr>) = Some res"
    by blast
  then show ?thesis using True
    by (cases res) (simp_all add: matchStream_def ReadFull_def Let_def)
qed

lemma matchStream_result:
  assumes cs: "0 < chunkSize r"
    and ms: "matchStream io fs r stream version = Some (Inr (m, fs1, lg))"
  shows "(stream = [] \<and> fs1 = fs \<and> lg = [] \<and> temps m = [[]] \<and> chunks m = [TempChunk []]
            \<and> storeQueue m = [] \<and> repo m = r)
       \<or> (chunkSize r \<le> length stream \<and> version < length fs \<and> encInv version r m
            \<and> storageWorker io fs version (storeQueue m) = Inr (fs1, lg))"
proof (cases "chunkSize r \<le> length stream")
  case False
  with ms have "stream = []"
    by (auto simp: matchStream_def ReadFull_def Let_def split: if_splits)
  with ms cs show ?thesis
    by (auto simp: matchStream_def ReadFull_def Let_def NewTempChunk_def initMatcher_def)
next
  case True
  let ?m0 = "(initMatcher r)\<lparr>rest := drop (chunkSize r) stream,
            buff := take (chunkSize r) stream,
            hasher := Write NewFromPol (take (chunkSize r) stream)\<rparr>"
  from matchLoop_inv [OF matcherInv_init [OF cs True], where fs = fs and v = version]
  obtain res where l: "matchLoop fs version ?m0 = Some res"
    and li: "\<forall>m1. res = Inr m1 \<longrightarrow> matcherInv version r m1 \<and> eof m1"
    by blast
  from ms True l have v: "version < length fs"
    by (auto simp: matchStream_def ReadFull_def Let_def split: if_splits)
  from ms True l v obtain m2 where r: "res = Inr m2"
    and b: "bind (matchTail fs version m2) (\<lambda>m1.
              bind (storageWorker io fs version (storeQueue m1)) (\<lambda>(fs1, lg).
                Inr (m1, fs1, lg))) = Inr (m, fs1, lg)"
    by (cases res) (simp_all add: matchStream_def ReadFull_def Let_def)
  from b obtain m3 where t: "matchTail fs version m2 = Inr m3"
    and b2: "bind (storageWorker io fs version (storeQueue m3)) (\<lambda>(fs1, lg).
                Inr (m3, fs1, lg)) = Inr (m, fs1, lg)"
    unfolding bind_eq_Inr by blast
  from b2 obtain fs2 lg2 where w: "storageWorker io fs version (storeQueue m3) = Inr (fs2, lg2)"
    and e: "Inr (m3, fs2, lg2) = (Inr (m, fs1, lg) :: fault + matcher \<times> repo_dir \<times> log_entry list)"
    unfolding bind_pair_eq_Inr by blast
  from e have eq: "m3 = m" "fs2 = fs1" "lg2 = lg" by simp_all
  from li r have "matcherInv version r m2" by simp
  from matchTail_inv [OF this t] have "encInv version r m" by (simp add: eq)
  then show ?thesis using True v w eq by simp
qed

subsection \<open>The length of Temp chunks\<close>

text \<open>
  C9 (as amended). Every payload given to \<^verbatim>\<open>NewTempChunk\<close> by the matcher is
  shorter than twice the chunk size, and has at least one byte unless the stream
  is empty; the history \<open>temps\<close> holds the payload of every Temp chunk of the
  recipe.
\<close>

theorem temp_chunk_lengths:
  assumes "0 < chunkSize r"
    and "matchStream io fs r stream version = Some (Inr (m, fs1, lg))"
  shows "(\<forall>t \<in> set (temps m). length t < 2 * chunkSize r \<and> (stream \<noteq> [] \<longrightarrow> 1 \<le> length t))
     \<and> (\<forall>t. TempChunk t \<in> set (chunks m) \<longrightarrow> t \<in> set (temps m))"
  using matchStream_result [OF assms] assms(1)
  by (auto simp: encInv_def)

theorem temp_chunk_lengths_witness:
  "0 < chunkSize (smallRepo 2 1 1 1)
   \<and> (\<exists>m fs1 lg. matchStream allStored [newVersionDir] (smallRepo 2 1 1 1) [1, 1, 2, 2, 3] 0
                     = Some (Inr (m, fs1, lg))
         \<and> temps m = [[1, 1], [2, 2], [3], [2, 2, 3]]
         \<and> (\<forall>t \<in> set (temps m). length t < 2 * chunkSize (smallRepo 2 1 1 1) \<and> 1 \<le> length t))"
proof -
  have cs: "0 < chunkSize (smallRepo 2 1 1 1)" by (simp add: smallRepo_def)
  have "tempsOf (matchStream allStored [newVersionDir] (smallRepo 2 1 1 1) [1, 1, 2, 2, 3] 0)
      = Some [[1, 1], [2, 2], [3], [2, 2, 3]]"
    by code_simp
  then obtain m fs1 lg where
    ms: "matchStream allStored [newVersionDir] (smallRepo 2 1 1 1) [1, 1, 2, 2, 3] 0
           = Some (Inr (m, fs1, lg))"
    and tm: "temps m = [[1, 1], [2, 2], [3], [2, 2, 3]]"
    by (auto simp: tempsOf_def split: option.splits sum.splits)
  have ne: "[1, 1, 2, 2, 3 :: byte] \<noteq> []" by simp
  from temp_chunk_lengths [OF cs ms] ne
  have "\<forall>t \<in> set (temps m). length t < 2 * chunkSize (smallRepo 2 1 1 1) \<and> 1 \<le> length t"
    by blast
  then show ?thesis using cs ms tm by blast
qed

text \<open>
  C9 (as stated) fails for the empty stream: with the parameters of
  \<^verbatim>\<open>NewRepo\<close>, the recipe is one Temp chunk of no byte.
\<close>

theorem temp_chunk_empty_counterexample:
  "recipeOf (matchStream allStored [newVersionDir] (NewRepo exampleHash copyDiffer copyPatcher) [] 0)
     = Some (Inr [TempChunk []])
   \<and> tempsOf (matchStream allStored [newVersionDir] (NewRepo exampleHash copyDiffer copyPatcher) [] 0)
     = Some [[]]"
  by (simp add: matchStream_def ReadFull_def NewRepo_def recipeOf_def tempsOf_def
      NewTempChunk_def initMatcher_def)

subsection \<open>The files of a commit\<close>

lemma writeFile_fresh: "k \<notin> fst ` set es \<Longrightarrow> writeFile k v es = es @ [(k, v)]"
  by (induction es) auto

lemma storageLoop_allStored:
  assumes "v < length fs"
    and "\<forall>k < length q. ident (q ! k) = \<lparr>Ver = v, Idx = j + k\<rparr>"
    and "map fst (chunkFiles (fs ! v)) = [0..<j]"
    and "hashesFile (fs ! v) = Some hs"
  shows "length (fst (storageLoop allStored v q (fs, lg))) = length fs
     \<and> (\<forall>i. i \<noteq> v \<longrightarrow> fst (storageLoop allStored v q (fs, lg)) ! i = fs ! i)
     \<and> chunkFiles (fst (storageLoop allStored v q (fs, lg)) ! v)
         = chunkFiles (fs ! v) @ map (\<lambda>d. (Idx (ident d), content d)) q
     \<and> hashesFile (fst (storageLoop allStored v q (fs, lg)) ! v) = Some (hs @ map hashes q)
     \<and> filesFile (fst (storageLoop allStored v q (fs, lg)) ! v) = filesFile (fs ! v)
     \<and> recipeFile (fst (storageLoop allStored v q (fs, lg)) ! v) = recipeFile (fs ! v)"
  using assms
proof (induction q arbitrary: fs lg j hs)
  case Nil
  then show ?case by simp
next
  case (Cons d q)
  from Cons.prems(2) have idd: "ident d = \<lparr>Ver = v, Idx = j\<rparr>" by force
  from Cons.prems(2) have idq: "\<forall>k < length q. ident (q ! k) = \<lparr>Ver = v, Idx = Suc j + k\<rparr>"
    by force
  let ?vd = "fs ! v"
  let ?vd2 = "?vd\<lparr>hashesFile := Some (hs @ [hashes d]),
                   chunkFiles := chunkFiles ?vd @ [(j, content d)]\<rparr>"
  let ?fs2 = "fs[v := ?vd2]"
  have fresh: "j \<notin> fst ` set (chunkFiles ?vd)"
  proof -
    have "fst ` set (chunkFiles ?vd) = set (map fst (chunkFiles ?vd))" by simp
    also have "\<dots> = {0..<j}" using Cons.prems(3) by simp
    finally show ?thesis by simp
  qed
  have step: "storageLoop allStored v (d # q) (fs, lg)
      = storageLoop allStored v q (?fs2, lg @ [LogInfo (ident d)])"
    using Cons.prems(1,4) fresh
    by (simp add: appendHashes_def StoreChunkContent_def allStored_def writeChunkFile_def idd
        writeFile_fresh)
  have p1: "v < length ?fs2" using Cons.prems(1) by simp
  have p3: "map fst (chunkFiles (?fs2 ! v)) = [0..<Suc j]" using Cons.prems(1,3) by simp
  have p4: "hashesFile (?fs2 ! v) = Some (hs @ [hashes d])" using Cons.prems(1) by simp
  note IH = Cons.IH [OF p1 idq p3 p4, of "lg @ [LogInfo (ident d)]"]
  show ?case unfolding step using IH Cons.prems(1) by (simp add: idd)
qed

lemma queueOk_ident: "queueOk v r q \<Longrightarrow> \<forall>k < length q. ident (q ! k) = \<lparr>Ver = v, Idx = 0 + k\<rparr>"
  by (simp add: queueOk_def queueItemOk_def)

lemma queueOk_files:
  assumes "queueOk v r q"
  shows "map fst (map (\<lambda>d. (Idx (ident d), content d)) q) = [0..<length q]"
  using assms by (intro nth_equalityI) (simp_all add: queueOk_def queueItemOk_def)

lemma storageWorker_allStored:
  assumes v: "v < length fs" and q: "queueOk v r q" and e: "chunkFiles (fs ! v) = []"
  shows "\<exists>fs1 lg. storageWorker allStored fs v q = Inr (fs1, lg)
     \<and> length fs1 = length fs \<and> (\<forall>i. i \<noteq> v \<longrightarrow> fs1 ! i = fs ! i)
     \<and> chunkFiles (fs1 ! v) = map (\<lambda>d. (Idx (ident d), content d)) q
     \<and> hashesFile (fs1 ! v) = Some (map hashes q)"
proof -
  let ?fs0 = "fs[v := (fs ! v)\<lparr>hashesFile := Some []\<rparr>]"
  have p1: "v < length ?fs0" using v by simp
  have p3: "map fst (chunkFiles (?fs0 ! v)) = [0..<0]" using v e by simp
  have p4: "hashesFile (?fs0 ! v) = Some []" using v by simp
  note s = storageLoop_allStored [OF p1 queueOk_ident [OF q] p3 p4, of "[]"]
  have "storageWorker allStored fs v q = Inr (storageLoop allStored v q (?fs0, []))"
    using v by (simp add: storageWorker_def)
  then show ?thesis using s v e
    by (cases "storageLoop allStored v q (?fs0, [])") auto
qed

lemma loadHashesRecords_config: "sameConfig r (loadHashesRecords r i j hs)"
proof (induction hs arbitrary: r j)
  case Nil
  then show ?case by simp
next
  case (Cons h hs)
  let ?r1 = "r\<lparr>fingerprints := (fingerprints r)(Fp h \<mapsto> \<lparr>Ver = i, Idx = j\<rparr>),
               sketches := Set (sketches r) (Sk h) \<lparr>Ver = i, Idx = j\<rparr>\<rparr>"
  have "sameConfig r ?r1" by (simp add: sameConfig_def)
  then have "sameConfig r (loadHashesRecords ?r1 i (Suc j) hs)"
    using Cons.IH [of ?r1 "Suc j"] by (rule sameConfig_trans)
  then show ?case by (simp add: Let_def)
qed

lemma loadHashesFrom_config: "loadHashesFrom r i versions = Inr r1 \<Longrightarrow> sameConfig r r1"
proof (induction versions arbitrary: r i)
  case Nil
  then show ?case by simp
next
  case (Cons v versions)
  then obtain hs where hs: "hashesFile v = Some hs"
    and l: "loadHashesFrom (loadHashesRecords r i 0 hs) (Suc i) versions = Inr r1"
    by (auto split: option.splits)
  from Cons.IH [OF l] loadHashesRecords_config [of r i 0 hs] show ?case
    using sameConfig_trans by blast
qed

lemma queueOk_config: "sameConfig r r1 \<Longrightarrow> queueOk v r1 q \<Longrightarrow> queueOk v r q"
  by (simp add: queueOk_def queueItemOk_def sameConfig_makeSketch sameConfig_makeFingerprint)
     (simp add: sameConfig_def)

lemma versionOk_queue:
  assumes q: "queueOk v r q"
    and c: "chunkFiles vd = map (\<lambda>d. (Idx (ident d), content d)) q"
    and h: "hashesFile vd = Some (map hashes q)"
  shows "versionOk r vd"
proof -
  have "map fst (chunkFiles vd) = [0..<length q]" unfolding c using q by (rule queueOk_files)
  moreover have "\<forall>k < length q. Fp (map hashes q ! k) = makeFingerprint r (snd (chunkFiles vd ! k))
                \<and> makeSketch r (snd (chunkFiles vd ! k)) = Inr (Sk (map hashes q ! k))"
    using q by (simp add: c queueOk_def queueItemOk_def)
  ultimately show ?thesis by (simp add: versionOk_def h)
qed

lemma Commit_versionOk:
  assumes cs: "0 < chunkSize r" and ok: "\<forall>vd \<in> set fs. versionOk r vd"
    and cm: "Commit allStored r fs source tree = Some (Inr (r1, fs1, lg))"
  shows "\<forall>vd \<in> set fs1. versionOk r vd"
proof -
  let ?v = "length fs"
  let ?fs0 = "fs @ [newVersionDir]"
  from cm obtain r0 where lh: "loadHashes r fs = Inr r0"
    by (auto simp: Commit_def Let_def split: sum.splits)
  from cm lh obtain m fs2 where
    ms: "matchStream allStored ?fs0 r0 (concatFiles tree) ?v = Some (Inr (m, fs2, lg))"
    and fs1: "fs1 = fs2[?v := (fs2 ! ?v)\<lparr>filesFile := Some (unprefixFiles (listFiles tree) source),
                                          recipeFile := Some (chunks m)\<rparr>]"
    by (auto simp: Commit_def Let_def split: sum.splits option.splits)
  have sc: "sameConfig r r0" using lh loadHashesFrom_config by (simp add: loadHashes_def)
  then have cs0: "0 < chunkSize r0" using cs by (simp add: sameConfig_def)
  have new: "length fs2 = Suc ?v \<and> (\<forall>i < ?v. fs2 ! i = fs ! i)
      \<and> versionOk r ((fs2 ! ?v)\<lparr>filesFile := Some (unprefixFiles (listFiles tree) source),
                                  recipeFile := Some (chunks m)\<rparr>)"
  proof -
    from matchStream_result [OF cs0 ms]
    consider (empty) "fs2 = ?fs0"
      | (full) "encInv ?v r0 m" "storageWorker allStored ?fs0 ?v (storeQueue m) = Inr (fs2, lg)"
      by blast
    then show ?thesis
    proof cases
      case empty
      then show ?thesis by (simp add: nth_append versionOk_def newVersionDir_def)
    next
      case full
      from full(1) have q0: "queueOk ?v r0 (storeQueue m)" by (simp add: encInv_def)
      have q: "queueOk ?v r (storeQueue m)" using sc q0 by (rule queueOk_config)
      have v: "?v < length ?fs0" by simp
      have e: "chunkFiles (?fs0 ! ?v) = []" by (simp add: newVersionDir_def)
      from storageWorker_allStored [OF v q0 e] full(2)
      have len: "length fs2 = length ?fs0"
        and oth: "\<forall>i. i \<noteq> ?v \<longrightarrow> fs2 ! i = ?fs0 ! i"
        and cf: "chunkFiles (fs2 ! ?v) = map (\<lambda>d. (Idx (ident d), content d)) (storeQueue m)"
        and hf: "hashesFile (fs2 ! ?v) = Some (map hashes (storeQueue m))"
        by auto
      have "versionOk r ((fs2 ! ?v)\<lparr>filesFile := Some (unprefixFiles (listFiles tree) source),
                                  recipeFile := Some (chunks m)\<rparr>)"
        using q by (rule versionOk_queue) (simp_all add: cf hf)
      moreover have "\<forall>i < ?v. fs2 ! i = fs ! i" using oth by (simp add: nth_append)
      ultimately show ?thesis using len by simp
    qed
  qed
  show ?thesis
  proof
    fix vd assume "vd \<in> set fs1"
    then obtain i where i: "i < length fs1" and vd: "vd = fs1 ! i" by (auto simp: in_set_conv_nth)
    show "versionOk r vd"
    proof (cases "i = ?v")
      case True
      then show ?thesis using new vd by (simp add: fs1)
    next
      case False
      then have "i < ?v" using i new by (simp add: fs1)
      then have "vd = fs ! i" "fs ! i \<in> set fs" using new vd False by (simp_all add: fs1)
      then show ?thesis using ok by simp
    qed
  qed
qed

lemma committed_versionOk:
  assumes "committed r fs" and "0 < chunkSize r"
  shows "\<forall>vd \<in> set fs. versionOk r vd"
  using assms
proof (induction rule: committed.induct)
  case (committed_empty r)
  then show ?case by simp
next
  case (committed_commit r fs source tree r1 fs1 lg)
  then show ?case using Commit_versionOk by blast
qed

subsection \<open>Reloading the hashes\<close>

lemma hashChunks_append:
  "hashChunks fs r (xs @ ys) = bind (hashChunks fs r xs) (\<lambda>r1. hashChunks fs r1 ys)"
proof (induction xs arbitrary: r)
  case Nil
  then show ?case by (simp add: bind_def)
next
  case (Cons c xs)
  show ?case
  proof (cases "LoadChunkContent fs r c")
    case (Inl e)
    then show ?thesis by (simp add: bind_def)
  next
    case (Inr a)
    obtain reader r1 where a: "a = (reader, r1)" by (cases a)
    show ?thesis
    proof (cases "hashChunk r1 c reader")
      case (Inl e)
      then show ?thesis using Inr a by (simp add: bind_def)
    next
      case (Inr b)
      obtain fp sk r2 where b: "b = (fp, sk, r2)" by (cases b)
      show ?thesis using \<open>LoadChunkContent fs r c = Inr a\<close> a Inr b Cons.IH [of r2]
        by (simp add: bind_def)
    qed
  qed
qed

lemma loadHashesFrom_snoc:
  "k = i + length vs \<Longrightarrow>
   loadHashesFrom r i (vs @ [v])
     = bind (loadHashesFrom r i vs) (\<lambda>r1.
         case hashesFile v of
           None \<Rightarrow> Inl PanicHashesFile
         | Some hs \<Rightarrow> Inr (loadHashesRecords r1 k 0 hs))"
proof (induction vs arbitrary: r i)
  case Nil
  then show ?case by (simp add: bind_def split: option.splits)
next
  case (Cons w vs)
  show ?case
  proof (cases "hashesFile w")
    case None
    then show ?thesis by (simp add: bind_def)
  next
    case (Some hs)
    have "k = Suc i + length vs" using Cons.prems by simp
    from Cons.IH [OF this, of "loadHashesRecords r i 0 hs"] Some show ?thesis by simp
  qed
qed

lemma loadHashesRecords_snoc:
  "loadHashesRecords r i j (hs @ [h])
     = (loadHashesRecords r i j hs)
         \<lparr>fingerprints := (fingerprints (loadHashesRecords r i j hs))
                            (Fp h \<mapsto> \<lparr>Ver = i, Idx = j + length hs\<rparr>),
          sketches := Set (sketches (loadHashesRecords r i j hs)) (Sk h)
                        \<lparr>Ver = i, Idx = j + length hs\<rparr>\<rparr>"
  by (simp add: loadHashesRecords_append Let_def)

lemma loadHashesRecords_sameIndex:
  "sameIndex rA rB \<Longrightarrow> sameIndex (loadHashesRecords rA i j hs) (loadHashesRecords rB i j hs)"
proof (induction hs arbitrary: rA rB j)
  case Nil
  then show ?case by simp
next
  case (Cons h hs)
  let ?ci = "\<lparr>Ver = i, Idx = j\<rparr>"
  let ?A = "rA\<lparr>fingerprints := (fingerprints rA)(Fp h \<mapsto> ?ci), sketches := Set (sketches rA) (Sk h) ?ci\<rparr>"
  let ?B = "rB\<lparr>fingerprints := (fingerprints rB)(Fp h \<mapsto> ?ci), sketches := Set (sketches rB) (Sk h) ?ci\<rparr>"
  have "sameIndex ?A ?B" using Cons.prems by (simp add: sameIndex_def)
  from Cons.IH [OF this, of "Suc j"] show ?case by (simp add: Let_def)
qed

lemma map_of_numbered:
  assumes "map fst es = [0..<K]" and "n < K"
  shows "map_of es n = Some (snd (es ! n))"
proof -
  have len: "length es = K" using assms(1) by (metis length_map length_upt diff_zero)
  have "map fst es ! n = n" using assms by simp
  then have f: "fst (es ! n) = n" using len assms(2) by simp
  have d: "distinct (map fst es)" using assms(1) by simp
  have "es ! n \<in> set es" using len assms(2) by simp
  then have "(n, snd (es ! n)) \<in> set es" using f by (metis prod.collapse)
  with d show ?thesis by (rule map_of_is_SomeI)
qed

lemma hashChunks_one:
  assumes ok: "versionOk r (fs ! i)" and i: "i < length fs"
    and hs: "hashesFile (fs ! i) = Some hs" and n: "n < length hs"
    and c: "cacheOk fs rH" and sc: "sameConfig r rH"
  shows "\<exists>rH1. hashChunks fs rH [\<lparr>Ver = i, Idx = n\<rparr>] = Inr rH1
     \<and> fingerprints rH1 = (fingerprints rH)(Fp (hs ! n) \<mapsto> \<lparr>Ver = i, Idx = n\<rparr>)
     \<and> sketches rH1 = Set (sketches rH) (Sk (hs ! n)) \<lparr>Ver = i, Idx = n\<rparr>
     \<and> cacheOk fs rH1 \<and> sameConfig r rH1"
proof -
  let ?ci = "\<lparr>Ver = i, Idx = n\<rparr>"
  let ?c = "snd (chunkFiles (fs ! i) ! n)"
  from ok hs have nm: "map fst (chunkFiles (fs ! i)) = [0..<length hs]"
    and fp: "Fp (hs ! n) = makeFingerprint r ?c"
    and sk: "makeSketch r ?c = Inr (Sk (hs ! n))"
    using n by (simp_all add: versionOk_def)
  have rd: "readChunkFile fs ?ci = Some ?c"
    using i map_of_numbered [OF nm n] by (simp add: readChunkFile_def)
  obtain r1 where l: "LoadChunkContent fs rH ?ci = Inr (?c, r1)"
    and c1: "cacheOk fs r1" and s1: "sameConfig rH r1"
    and x1: "fingerprints r1 = fingerprints rH" "sketches r1 = sketches rH"
  proof (cases "chunkCache rH ?ci")
    case None
    then show ?thesis using rd c that [of "rH\<lparr>chunkCache := (chunkCache rH)(?ci \<mapsto> ?c)\<rparr>"]
      by (simp add: LoadChunkContent_def cacheOk_def sameConfig_def)
  next
    case (Some w)
    then have "w = ?c" using c rd by (simp add: cacheOk_def)
    then show ?thesis using Some c that [of rH] by (simp add: LoadChunkContent_def)
  qed
  have s2: "sameConfig r r1" using sc s1 by (rule sameConfig_trans)
  have sk1: "makeSketch r1 ?c = Inr (Sk (hs ! n))" using sk sameConfig_makeSketch [OF s2] by simp
  have fp1: "makeFingerprint r1 ?c = Fp (hs ! n)" using fp sameConfig_makeFingerprint [OF s2] by simp
  let ?r2 = "r1\<lparr>fingerprints := (fingerprints r1)(Fp (hs ! n) \<mapsto> ?ci),
                 sketches := Set (sketches r1) (Sk (hs ! n)) ?ci\<rparr>"
  have h: "hashChunk r1 ?ci ?c = Inr (Fp (hs ! n), Sk (hs ! n), ?r2)"
    using sk1 fp1 by (simp add: hashChunk_def bind_def Let_def)
  have "hashChunks fs rH [?ci] = Inr ?r2" using l h by (simp add: bind_def)
  moreover have "cacheOk fs ?r2" using c1 by (simp add: cacheOk_def)
  moreover have "sameConfig r ?r2" using s2 by (simp add: sameConfig_def)
  ultimately show ?thesis using x1 by simp
qed

lemma versionOk_length:
  "versionOk r vd \<Longrightarrow> hashesFile vd = Some hs \<Longrightarrow> length (chunkFiles vd) = length hs"
proof -
  assume "versionOk r vd" and "hashesFile vd = Some hs"
  then have "map fst (chunkFiles vd) = [0..<length hs]" by (simp add: versionOk_def)
  then have "length (map fst (chunkFiles vd)) = length [0..<length hs]" by simp
  then show ?thesis by simp
qed

lemma hashChunks_version:
  assumes ok: "versionOk r (fs ! i)" and i: "i < length fs"
    and hs: "hashesFile (fs ! i) = Some hs" and n: "n \<le> length hs"
    and c: "cacheOk fs rH" and sc: "sameConfig r rH" and si: "sameIndex rL rH"
  shows "\<exists>rH1. hashChunks fs rH (map (\<lambda>j. \<lparr>Ver = i, Idx = j\<rparr>) [0..<n]) = Inr rH1
     \<and> sameIndex (loadHashesRecords rL i 0 (take n hs)) rH1
     \<and> cacheOk fs rH1 \<and> sameConfig r rH1"
  using n
proof (induction n)
  case 0
  then show ?case using c sc si by simp
next
  case (Suc n)
  then have n: "n < length hs" by simp
  from Suc.IH n obtain rH1 where
    h1: "hashChunks fs rH (map (\<lambda>j. \<lparr>Ver = i, Idx = j\<rparr>) [0..<n]) = Inr rH1"
    and s1: "sameIndex (loadHashesRecords rL i 0 (take n hs)) rH1"
    and c1: "cacheOk fs rH1" and sc1: "sameConfig r rH1"
    by auto
  from hashChunks_one [OF ok i hs n c1 sc1] obtain rH2 where
    h2: "hashChunks fs rH1 [\<lparr>Ver = i, Idx = n\<rparr>] = Inr rH2"
    and f2: "fingerprints rH2 = (fingerprints rH1)(Fp (hs ! n) \<mapsto> \<lparr>Ver = i, Idx = n\<rparr>)"
    and k2: "sketches rH2 = Set (sketches rH1) (Sk (hs ! n)) \<lparr>Ver = i, Idx = n\<rparr>"
    and c2: "cacheOk fs rH2" and sc2: "sameConfig r rH2"
    by blast
  have "hashChunks fs rH (map (\<lambda>j. \<lparr>Ver = i, Idx = j\<rparr>) [0..<Suc n]) = Inr rH2"
    using h1 h2 by (simp add: hashChunks_append bind_def del: hashChunks.simps)
  moreover have "sameIndex (loadHashesRecords rL i 0 (take (Suc n) hs)) rH2"
    using s1 f2 k2 n
    by (simp add: take_Suc_conv_app_nth loadHashesRecords_snoc sameIndex_def)
  ultimately show ?case using c2 sc2 by blast
qed

lemma loadChunks_concat: "loadChunks fs = concat (map (chunkIdsOf fs) [0..<length fs])"
proof -
  have "chunkIdsOf fs = (\<lambda>i. map (\<lambda>j. \<lparr>Ver = i, Idx = j\<rparr>) [0..<length (chunkFiles (fs ! i))])"
    by (rule ext) (simp add: chunkIdsOf_def)
  then show ?thesis by (simp add: loadChunks_def)
qed

lemma reload_prefix:
  assumes ok: "\<forall>vd \<in> set fs. versionOk r vd" and hf: "\<forall>vd \<in> set fs. hashesFile vd \<noteq> None"
    and c: "cacheOk fs r" and n: "n \<le> length fs"
  shows "\<exists>rL rH. loadHashesFrom r 0 (take n fs) = Inr rL
     \<and> hashChunks fs r (concat (map (chunkIdsOf fs) [0..<n])) = Inr rH
     \<and> sameIndex rL rH \<and> cacheOk fs rH \<and> sameConfig r rH"
  using n
proof (induction n)
  case 0
  then show ?case using c by (simp add: sameIndex_def)
next
  case (Suc n)
  then have n: "n < length fs" by simp
  from Suc.IH n obtain rL rH where
    l1: "loadHashesFrom r 0 (take n fs) = Inr rL"
    and h1: "hashChunks fs r (concat (map (chunkIdsOf fs) [0..<n])) = Inr rH"
    and s1: "sameIndex rL rH" and c1: "cacheOk fs rH" and sc1: "sameConfig r rH"
    by auto
  have mem: "fs ! n \<in> set fs" using n by simp
  from hf mem obtain hs where hs: "hashesFile (fs ! n) = Some hs" by fastforce
  from ok mem have vok: "versionOk r (fs ! n)" by blast
  have len: "length (chunkFiles (fs ! n)) = length hs" using vok hs by (rule versionOk_length)
  from hashChunks_version [OF vok n hs order_refl c1 sc1 s1] obtain rH1 where
    h2: "hashChunks fs rH (map (\<lambda>j. \<lparr>Ver = n, Idx = j\<rparr>) [0..<length hs]) = Inr rH1"
    and s2: "sameIndex (loadHashesRecords rL n 0 hs) rH1"
    and c2: "cacheOk fs rH1" and sc2: "sameConfig r rH1"
    by auto
  have k: "n = 0 + length (take n fs)" using n by simp
  have "loadHashesFrom r 0 (take (Suc n) fs) = Inr (loadHashesRecords rL n 0 hs)"
    using n l1 hs loadHashesFrom_snoc [OF k, of r "fs ! n"]
    by (simp add: take_Suc_conv_app_nth bind_def)
  moreover have "hashChunks fs r (concat (map (chunkIdsOf fs) [0..<Suc n])) = Inr rH1"
    using h1 h2 by (simp add: hashChunks_append bind_def chunkIdsOf_def len)
  ultimately show ?case using s2 c2 sc2 by blast
qed

lemma committedDir_Some:
  "committedDir res = Some fs \<Longrightarrow> \<exists>r1 lg. res = Some (Inr (r1, fs, lg))"
  by (auto simp: committedDir_def split: option.splits sum.splits)

text \<open>
  C7 (as amended). Let a repository be built by commits of a fresh engine with a
  chunk size above 0, every chunk write succeeding, and let every version have a
  hashes file. Then \<^verbatim>\<open>loadHashes\<close> on a fresh engine and \<^verbatim>\<open>hashChunks\<close> over
  the chunks that \<^verbatim>\<open>loadChunks\<close> lists both return, with the same fingerprint
  index and the same sketch index; every version has as many chunk files as
  records, and record \<open>N\<close> of version \<open>V\<close> holds the fingerprint and the
  sketch of the payload of chunk \<open>(V, N)\<close>.
\<close>

theorem hashes_reload:
  assumes cm: "committed r fs" and cs: "0 < chunkSize r"
    and ce: "chunkCache r = Map.empty"
    and hf: "\<forall>vd \<in> set fs. hashesFile vd \<noteq> None"
  shows "\<exists>rL rH. loadHashes r fs = Inr rL \<and> hashChunks fs r (loadChunks fs) = Inr rH
     \<and> fingerprints rL = fingerprints rH \<and> sketches rL = sketches rH
     \<and> (\<forall>V < length fs. \<forall>hs. hashesFile (fs ! V) = Some hs \<longrightarrow>
           length (chunkFiles (fs ! V)) = length hs
           \<and> (\<forall>N < length hs. \<exists>c. readChunkFile fs \<lparr>Ver = V, Idx = N\<rparr> = Some c
                 \<and> Fp (hs ! N) = makeFingerprint r c \<and> makeSketch r c = Inr (Sk (hs ! N))))"
proof -
  have ok: "\<forall>vd \<in> set fs. versionOk r vd" using cm cs by (rule committed_versionOk)
  have c: "cacheOk fs r" using ce by (simp add: cacheOk_def)
  from reload_prefix [OF ok hf c order_refl] obtain rL rH where
    "loadHashes r fs = Inr rL" "hashChunks fs r (loadChunks fs) = Inr rH" "sameIndex rL rH"
    by (auto simp: loadHashes_def loadChunks_concat)
  moreover have "\<forall>V < length fs. \<forall>hs. hashesFile (fs ! V) = Some hs \<longrightarrow>
           length (chunkFiles (fs ! V)) = length hs
           \<and> (\<forall>N < length hs. \<exists>c. readChunkFile fs \<lparr>Ver = V, Idx = N\<rparr> = Some c
                 \<and> Fp (hs ! N) = makeFingerprint r c \<and> makeSketch r c = Inr (Sk (hs ! N)))"
  proof (intro allI impI)
    fix V hs assume V: "V < length fs" and hs: "hashesFile (fs ! V) = Some hs"
    have vok: "versionOk r (fs ! V)" using ok V by simp
    have nm: "map fst (chunkFiles (fs ! V)) = [0..<length hs]"
      using vok hs by (simp add: versionOk_def)
    show "length (chunkFiles (fs ! V)) = length hs
           \<and> (\<forall>N < length hs. \<exists>c. readChunkFile fs \<lparr>Ver = V, Idx = N\<rparr> = Some c
                 \<and> Fp (hs ! N) = makeFingerprint r c \<and> makeSketch r c = Inr (Sk (hs ! N)))"
    proof (intro conjI allI impI)
      show "length (chunkFiles (fs ! V)) = length hs" using vok hs by (rule versionOk_length)
    next
      fix N assume N: "N < length hs"
      have "readChunkFile fs \<lparr>Ver = V, Idx = N\<rparr> = Some (snd (chunkFiles (fs ! V) ! N))"
        using V map_of_numbered [OF nm N] by (simp add: readChunkFile_def)
      moreover have "Fp (hs ! N) = makeFingerprint r (snd (chunkFiles (fs ! V) ! N))"
        "makeSketch r (snd (chunkFiles (fs ! V) ! N)) = Inr (Sk (hs ! N))"
        using vok hs N by (simp_all add: versionOk_def)
      ultimately show "\<exists>c. readChunkFile fs \<lparr>Ver = V, Idx = N\<rparr> = Some c
                 \<and> Fp (hs ! N) = makeFingerprint r c \<and> makeSketch r c = Inr (Sk (hs ! N))"
        by blast
    qed
  qed
  ultimately show ?thesis by (auto simp: sameIndex_def)
qed

theorem hashes_reload_witness:
  "committed (smallRepo 2 1 1 1) [versionOne, versionTwo]
   \<and> 0 < chunkSize (smallRepo 2 1 1 1)
   \<and> chunkCache (smallRepo 2 1 1 1) = Map.empty
   \<and> hashesFile versionOne \<noteq> None \<and> hashesFile versionTwo \<noteq> None
   \<and> (\<exists>rL rH. loadHashes (smallRepo 2 1 1 1) [versionOne, versionTwo] = Inr rL
         \<and> hashChunks [versionOne, versionTwo] (smallRepo 2 1 1 1)
              (loadChunks [versionOne, versionTwo]) = Inr rH
         \<and> fingerprints rL = fingerprints rH \<and> sketches rL = sketches rH)"
proof -
  have "committedDir (Commit allStored (smallRepo 2 1 1 1) [] ''src'' treeOne) = Some [versionOne]"
    by code_simp
  then obtain r1 lg1 where
    "Commit allStored (smallRepo 2 1 1 1) [] ''src'' treeOne = Some (Inr (r1, [versionOne], lg1))"
    using committedDir_Some by blast
  with committed_empty have c1: "committed (smallRepo 2 1 1 1) [versionOne]"
    by (rule committed_commit)
  have "committedDir (Commit allStored (smallRepo 2 1 1 1) [versionOne] ''src'' treeTwo)
      = Some [versionOne, versionTwo]"
    by code_simp
  then obtain r2 lg2 where
    "Commit allStored (smallRepo 2 1 1 1) [versionOne] ''src'' treeTwo
       = Some (Inr (r2, [versionOne, versionTwo], lg2))"
    using committedDir_Some by blast
  with c1 have c2: "committed (smallRepo 2 1 1 1) [versionOne, versionTwo]"
    by (rule committed_commit)
  have cs: "0 < chunkSize (smallRepo 2 1 1 1)" by (simp add: smallRepo_def)
  have ce: "chunkCache (smallRepo 2 1 1 1) = Map.empty" by (simp add: smallRepo_def NewRepo_def)
  have hf: "\<forall>vd \<in> set [versionOne, versionTwo]. hashesFile vd \<noteq> None"
    by (simp add: versionOne_def versionTwo_def)
  have h1: "hashesFile versionOne \<noteq> None" and h2: "hashesFile versionTwo \<noteq> None"
    by (simp_all add: versionOne_def versionTwo_def)
  from hashes_reload [OF c2 cs ce hf] show ?thesis using c2 cs ce h1 h2 by blast
qed

text \<open>
  C7 (as stated) fails for a version committed from an empty tree:
  \<^verbatim>\<open>matchStream\<close> returns before the storage worker is started, the version has
  no hashes file, and \<^verbatim>\<open>loadHashes\<close> panics on the repository.
\<close>

theorem hashes_reload_counterexample:
  "committed (NewRepo exampleHash copyDiffer copyPatcher) emptyCommitDir
   \<and> faultOf (loadHashes (NewRepo exampleHash copyDiffer copyPatcher) emptyCommitDir)
     = Some PanicHashesFile"
proof -
  have "committedDir (Commit allStored (NewRepo exampleHash copyDiffer copyPatcher) [] ''src'' [])
      = Some emptyCommitDir"
    by code_simp
  then obtain r1 lg1 where
    "Commit allStored (NewRepo exampleHash copyDiffer copyPatcher) [] ''src'' []
       = Some (Inr (r1, emptyCommitDir, lg1))"
    using committedDir_Some by blast
  with committed_empty have "committed (NewRepo exampleHash copyDiffer copyPatcher) emptyCommitDir"
    by (rule committed_commit)
  moreover have "faultOf (loadHashes (NewRepo exampleHash copyDiffer copyPatcher) emptyCommitDir)
      = Some PanicHashesFile"
    by code_simp
  ultimately show ?thesis by simp
qed

end
